theory Spec2Isabelle
  imports Complex_Main "HOL-Library.Sublist" "HOL-Library.Product_Lexorder"
    "HOL-Library.Char_ord" "HOL-Library.List_Lexorder"
begin

section \<open>Data model\<close>

text \<open>
  Intervals are pairs of Python integers (\<open>(start, end)\<close> tuples).  The exceptions the
  modelled functions raise are values of \<open>error\<close>.
\<close>

type_synonym interval = "int \<times> int"

datatype error =
    ModificationError
  | InvalidTranscript
  | InvalidCDS
  | AssertionError
  | IndexError
  | TypeError
  | KeyError
  | ValueError
  | NetworkXError
  | NotInLocusError

datatype strand = Plus | Minus

text \<open>A BLAST hit (\<open>hit["target"]\<close>, \<open>hit["hsps"]\<close>) and its HSPs.  The e-values and the
  minimal overlap are Python floats, each of which is a rational number.\<close>

record hsp =
  hsp_evalue :: rat
  query_hsp_start :: int
  query_hsp_end :: int

record hit =
  target :: string
  hsps :: "hsp list"

text \<open>
  A candidate ORF (a \<open>BED12\<close> object), as far as \<open>load_orfs\<close> and \<open>split_by_cds\<close> read it:
  \<open>o_len\<close> is \<open>len(orf)\<close>, \<open>o_strand\<close> its strand.  The class itself is not part of the
  sources at hand, so what its properties return is data of the model.
\<close>

record orf =
  o_name :: string
  thickStart :: int
  thickEnd :: int
  o_strand :: "strand option"
  cds_len :: int
  o_len :: int
  invalid :: bool
  o_has_start_codon :: bool
  o_has_stop_codon :: bool

text \<open>The entries of the JSON configuration that the modelled methods read.\<close>

record config =
  minimal_secondary_orf_length :: int
  blast_check :: bool
  leniency :: string
  minimal_hsp_overlap :: rat
  hsp_evalue_max :: rat

text \<open>A segment of an internal ORF: \<open>("exon" | "CDS" | "UTR", start, end)\<close>.\<close>

type_synonym segment = "string \<times> int \<times> int"

text \<open>
  The fields of \<open>Transcript\<close> that the modelled methods read or write.  \<open>t_start\<close> and
  \<open>t_end\<close> are the attributes \<open>start\<close> and \<open>end\<close>; a strand of \<open>None\<close> is \<open>None\<close>.
\<close>

record transcript =
  tid :: string
  chrom :: string
  strand :: "strand option"
  t_start :: int
  t_end :: int
  exons :: "interval list"
  combined_cds :: "interval list"
  combined_utr :: "interval list"
  finalized :: bool
  has_start_codon :: bool
  has_stop_codon :: bool
  internal_orfs :: "segment list list"
  segments :: "segment list"
  selected_internal_orf_index :: "nat option"
  introns :: "interval set"
  splices :: "int set"
  feature :: string
  loaded_bed12 :: "orf list"
  blast_hits :: "hit list"
  json_dict :: "config option"

text \<open>An annotation line (\<open>GffLine\<close> / \<open>GtfLine\<close>), as far as \<open>add_exon\<close> reads it.\<close>

record gffline =
  g_parent :: "string list"
  g_feature :: string
  g_is_exon :: bool
  g_start :: int
  g_end :: int

section \<open>Interval overlap\<close>

text \<open>\<open>sorted(first_interval[:2])\<close> on a pair.\<close>

definition sorted_pair :: "interval \<Rightarrow> interval" where
  "sorted_pair p = (if fst p \<le> snd p then p else (snd p, fst p))"

text \<open>
  \<open>overlap\<close> of \<open>clique_methods.py\<close> and \<open>Abstractlocus.overlap\<close> (the two bodies are the
  same).
\<close>

definition overlap :: "interval \<Rightarrow> interval \<Rightarrow> int \<Rightarrow> int" where
  "overlap first_interval second_interval flank =
     (let first_interval = sorted_pair first_interval;
          second_interval = sorted_pair second_interval;
          left_boundary = max (fst first_interval - flank) (fst second_interval - flank);
          right_boundary = min (snd first_interval + flank) (snd second_interval + flank)
      in right_boundary - left_boundary)"

text \<open>The bases an inclusive interval \<open>[start, end]\<close> covers.\<close>

definition bases :: "interval \<Rightarrow> int set" where
  "bases p = {fst p .. snd p}"

section \<open>Transcript.add\_exon\<close>

text \<open>\<open>str.upper\<close> on ASCII letters (other bytes are left as they are).\<close>

definition upper_char :: "char \<Rightarrow> char" where
  "upper_char c =
     (if 97 \<le> (of_char c :: nat) \<and> (of_char c :: nat) \<le> 122
      then char_of ((of_char c :: nat) - 32) else c)"

definition upper :: "string \<Rightarrow> string" where
  "upper s = map upper_char s"

text \<open>
  \<open>add_exon\<close> mutates the transcript and may raise: the model returns the transcript as
  it is when the call ends, and the exception raised, if any.
\<close>

definition add_exon :: "transcript \<Rightarrow> gffline \<Rightarrow> transcript \<times> error option" where
  "add_exon t g =
     (if finalized t then (t, Some ModificationError)
      else if tid t \<notin> set (g_parent g) then (t, Some InvalidTranscript)
      else if \<not> g_is_exon g then (t, Some AssertionError)
      else
        let iv = sorted_pair (g_start g, g_end g) in
        if suffix ''CDS'' (upper (g_feature g))
          then (t\<lparr>combined_cds := combined_cds t @ [iv]\<rparr>, None)
        else if sublist ''combined_utr'' (g_feature g) \<or> sublist ''UTR'' (upper (g_feature g))
          then (t\<lparr>combined_utr := combined_utr t @ [iv]\<rparr>, None)
        else if suffix ''exon'' (g_feature g)
          then (t\<lparr>exons := exons t @ [iv]\<rparr>, None)
        else if g_feature g = ''start_codon''
          then (t\<lparr>has_start_codon := True\<rparr>, None)
        else if g_feature g = ''stop_codon''
          then (t\<lparr>has_stop_codon := True\<rparr>, None)
        else (t, Some InvalidTranscript))"

text \<open>A finalized monoexonic transcript and an exon line naming it as parent.\<close>

definition finalized_example :: transcript where
  "finalized_example =
     \<lparr>tid = ''t1'', chrom = ''chr1'', strand = Some Plus, t_start = 1, t_end = 100,
      exons = [(1, 100)], combined_cds = [], combined_utr = [], finalized = True,
      has_start_codon = False, has_stop_codon = False,
      internal_orfs = [[(''exon'', 1, 100)]], segments = [(''exon'', 1, 100)],
      selected_internal_orf_index = Some 0, introns = {}, splices = {},
      feature = ''transcript'', loaded_bed12 = [], blast_hits = [], json_dict = None\<rparr>"

definition exon_line :: gffline where
  "exon_line = \<lparr>g_parent = [''t1''], g_feature = ''exon'', g_is_exon = True,
                 g_start = 101, g_end = 200\<rparr>"

section \<open>Transcript.split\_by\_cds: grouping the CDS boundaries by BLAST evidence\<close>

text \<open>
  \<open>cds_hit_dict[cds_run]\<close>: the targets of the hits that have an HSP with an e-value of
  at most \<open>max_evalue\<close> overlapping \<open>cds_run\<close> by at least \<open>minimal_overlap\<close> times its
  length.  A float is a rational number and Python compares floats and integers
  exactly, but the product \<open>minimal_overlap * length\<close> is rounded to a float: what it
  returns is the parameter \<open>float_product\<close> of the model.
\<close>

definition cds_hit_dict ::
  "(rat \<Rightarrow> int \<Rightarrow> rat) \<Rightarrow> rat \<Rightarrow> rat \<Rightarrow> hit list \<Rightarrow> interval \<Rightarrow> string set" where
  "cds_hit_dict float_product max_evalue minimal_overlap hits cds_run =
     set (concat (map (\<lambda>h.
            concat (map (\<lambda>p.
              if of_int (overlap cds_run (query_hsp_start p, query_hsp_end p) 0)
                   \<ge> float_product minimal_overlap (snd cds_run + 1 - fst cds_run)
              then [target h] else [])
            (filter (\<lambda>p. hsp_evalue p \<le> max_evalue) (hsps h))))
          hits))"

text \<open>
  The product without rounding.  It stands for \<open>float_product\<close> in the examples below,
  which have no hit, so that no product is computed in them.
\<close>

definition exact_product :: "rat \<Rightarrow> int \<Rightarrow> rat" where
  "exact_product x n = x * of_int n"

text \<open>\<open>new_boundaries[-1].append(cds_boundary)\<close>.\<close>

definition append_to_last :: "'a list list \<Rightarrow> 'a \<Rightarrow> 'a list list" where
  "append_to_last groups x = butlast groups @ [last groups @ [x]]"

text \<open>One iteration of the loop over \<open>cds_boundaries\<close> that fills \<open>new_boundaries\<close>.\<close>

definition boundary_step ::
  "string \<Rightarrow> (interval \<Rightarrow> string set) \<Rightarrow> interval list list \<Rightarrow> interval \<Rightarrow> interval list list" where
  "boundary_step lenience hit_dict groups cds_boundary =
     (if groups = [] then [[cds_boundary]]
      else
        let old_boundary = last (last groups);
            cds_hits = hit_dict cds_boundary;
            old_hits = hit_dict old_boundary
        in if cds_hits = {} \<and> old_hits = {} then
             (if lenience = ''STRINGENT'' then append_to_last groups cds_boundary
              else groups @ [[cds_boundary]])
           else if cds_hits = {} \<or> old_hits = {} then
             (if lenience = ''PERMISSIVE'' then groups @ [[cds_boundary]]
              else append_to_last groups cds_boundary)
           else
             (if cds_hits \<inter> old_hits = {} then groups @ [[cds_boundary]]
              else append_to_last groups cds_boundary))"

text \<open>The whole loop, over the keys of \<open>cds_boundaries\<close> in their order.\<close>

definition new_boundaries ::
  "(rat \<Rightarrow> int \<Rightarrow> rat) \<Rightarrow> string \<Rightarrow> rat \<Rightarrow> rat \<Rightarrow> hit list \<Rightarrow> interval list \<Rightarrow>
   interval list list" where
  "new_boundaries float_product lenience max_evalue minimal_overlap hits cds_boundaries =
     foldl (boundary_step lenience
              (cds_hit_dict float_product max_evalue minimal_overlap hits))
       [] cds_boundaries"

section \<open>Transcript.finalize\<close>

text \<open>
  \<open>finalize\<close> updates the transcript in place and may raise.  The model returns the
  updated transcript, or the exception; what the object is left holding when
  \<open>finalize\<close> raises (the UTR intervals appended before a failed inference, for one) is
  not part of the result, as no caller modelled here catches the exception.

  The properties \<open>cdna_length\<close>, \<open>combined_cds_length\<close> and \<open>combined_utr_length\<close>: the
  sum of \<open>end - start + 1\<close> over the exons, the combined CDS and the combined UTR.
\<close>

definition intervals_length :: "interval list \<Rightarrow> int" where
  "intervals_length xs = sum_list (map (\<lambda>e. snd e - fst e + 1) xs)"

definition cdna_length :: "transcript \<Rightarrow> int" where
  "cdna_length t = intervals_length (exons t)"

definition combined_cds_length :: "transcript \<Rightarrow> int" where
  "combined_cds_length t = intervals_length (combined_cds t)"

definition combined_utr_length :: "transcript \<Rightarrow> int" where
  "combined_utr_length t = intervals_length (combined_utr t)"

text \<open>
  The loop over the exons that fills \<open>combined_utr\<close> from the sorted CDS (\<open>cds\<close> is not
  empty when it runs).
\<close>

fun infer_utr :: "interval list \<Rightarrow> interval list \<Rightarrow> interval list \<Rightarrow> error + interval list" where
  "infer_utr cds [] utr = Inr utr"
| "infer_utr cds (exon # rest) utr =
     (if exon \<in> set cds then infer_utr cds rest utr
      else if snd exon < fst (hd cds) \<or> fst exon > snd (last cds)
        then infer_utr cds rest (utr @ [exon])
      else if fst exon < fst (hd cds) \<and> snd exon = snd (hd cds)
        then infer_utr cds rest (utr @ [(fst exon, fst (hd cds) - 1)])
      else if snd exon > snd (last cds) \<and> fst exon = fst (last cds)
        then infer_utr cds rest (utr @ [(snd (last cds) + 1, snd exon)])
      else if length cds = 1
        then infer_utr cds rest
               (utr @ [(fst exon, fst (hd cds) - 1), (snd (last cds) + 1, snd exon)])
      else Inl InvalidCDS)"

text \<open>The introns between consecutive exons; overlapping exons raise.\<close>

fun exon_introns :: "interval list \<Rightarrow> error + interval list" where
  "exon_introns (exona # exonb # rest) =
     (if snd exona \<ge> fst exonb then Inl InvalidTranscript
      else case exon_introns (exonb # rest) of
             Inl e \<Rightarrow> Inl e
           | Inr js \<Rightarrow> Inr ((snd exona + 1, fst exonb - 1) # js))"
| "exon_introns _ = Inr []"

text \<open>
  The segments of the transcript, sorted with \<open>operator.itemgetter(1, 2, 0)\<close>, and the
  CDS intervals among the segments of an internal ORF.
\<close>

definition segment_key :: "segment \<Rightarrow> int \<times> int \<times> string" where
  "segment_key s = (fst (snd s), snd (snd s), fst s)"

definition make_segments :: "interval list \<Rightarrow> interval list \<Rightarrow> interval list \<Rightarrow> segment list" where
  "make_segments es cs us =
     sort_key segment_key
       (map (\<lambda>e. (''exon'', fst e, snd e)) es @
        map (\<lambda>c. (''CDS'', fst c, snd c)) cs @
        map (\<lambda>u. (''UTR'', fst u, snd u)) us)"

definition cds_of_segments :: "segment list \<Rightarrow> interval list" where
  "cds_of_segments segs = map snd (filter (\<lambda>x. fst x = ''CDS'') segs)"

text \<open>
  The property \<open>selected_cds\<close>, and the read of the property \<open>selected_internal_orf\<close>
  (\<open>_ = self.selected_internal_orf\<close>), which sets the index to 0 when there is no CDS
  and indexes \<open>internal_orfs\<close> otherwise.
\<close>

definition selected_cds :: "transcript \<Rightarrow> error + interval list" where
  "selected_cds t =
     (if combined_cds t = [] then Inr []
      else case selected_internal_orf_index t of
             None \<Rightarrow> Inl TypeError
           | Some i \<Rightarrow> if i < length (internal_orfs t)
                        then Inr (cds_of_segments (internal_orfs t ! i))
                        else Inl IndexError)"

definition selected_internal_orf_check :: "transcript \<Rightarrow> error + transcript" where
  "selected_internal_orf_check t =
     (if combined_cds t = [] then Inr (t\<lparr>selected_internal_orf_index := Some 0\<rparr>)
      else case selected_internal_orf_index t of
             None \<Rightarrow> Inl TypeError
           | Some i \<Rightarrow> if i < length (internal_orfs t) then Inr t else Inl IndexError)"

text \<open>
  The inference of the UTR: it runs, and its result is checked, only when the cDNA is
  longer than the CDS and the UTR together and no UTR was given with a CDS.
\<close>

definition finalize_utr :: "transcript \<Rightarrow> error + transcript" where
  "finalize_utr t =
     (if cdna_length t > combined_utr_length t + combined_cds_length t
         \<and> combined_utr t = [] \<and> combined_cds t \<noteq> []
      then
        let cds = sort (combined_cds t) in
        case infer_utr cds (exons t) (combined_utr t) of
          Inl e \<Rightarrow> Inl e
        | Inr utr \<Rightarrow>
            let t1 = t\<lparr>combined_cds := cds, combined_utr := utr\<rparr> in
            if \<not> ((combined_cds_length t1 = combined_utr_length t1 \<and> combined_utr_length t1 = 0)
                    \<or> cdna_length t1 = combined_utr_length t1 + combined_cds_length t1)
            then Inl InvalidCDS else Inr t1
      else Inr t)"

text \<open>The start and stop codon flags, read off the sorted CDS and UTR.\<close>

definition codon_flags :: "transcript \<Rightarrow> error + transcript" where
  "codon_flags t =
     (if combined_utr t \<noteq> [] \<and> combined_cds t = [] then Inl IndexError
      else
        let t1 = (if combined_utr t \<noteq> [] \<and> fst (hd (combined_utr t)) < fst (hd (combined_cds t))
                  then (case strand t of
                          Some Plus \<Rightarrow> t\<lparr>has_start_codon := True\<rparr>
                        | Some Minus \<Rightarrow> t\<lparr>has_stop_codon := True\<rparr>
                        | None \<Rightarrow> t)
                  else t)
        in Inr (if combined_utr t \<noteq> [] \<and> snd (last (combined_utr t)) > snd (last (combined_cds t))
                then (case strand t of
                        Some Plus \<Rightarrow> t1\<lparr>has_stop_codon := True\<rparr>
                      | Some Minus \<Rightarrow> t1\<lparr>has_start_codon := True\<rparr>
                      | None \<Rightarrow> t1)
                else t1))"

text \<open>
  The last block of \<open>finalize\<close>: when the outer exons do not match the start and the
  end of the transcript, an exon is stretched to a boundary that the selected CDS
  reaches, and the bounds are compared again.  An \<open>IndexError\<close> in the block is raised as
  \<open>InvalidTranscript\<close>.
\<close>

definition catch_index :: "error \<Rightarrow> error" where
  "catch_index e = (if e = IndexError then InvalidTranscript else e)"

definition selected_cds_item :: "transcript \<Rightarrow> bool \<Rightarrow> error + interval" where
  "selected_cds_item t from_end =
     (case selected_cds t of
        Inl e \<Rightarrow> Inl e
      | Inr cs \<Rightarrow> if cs = [] then Inl IndexError
                  else Inr (if from_end then last cs else hd cs))"

definition fix_first_exon :: "transcript \<Rightarrow> error + transcript" where
  "fix_first_exon t =
     (if fst (hd (exons t)) > t_start t then
        (case selected_cds_item t False of
           Inl e \<Rightarrow> Inl e
         | Inr c \<Rightarrow> if fst c = t_start t
                     then Inr (t\<lparr>exons := (exons t)[0 := (t_start t, fst (hd (exons t)))]\<rparr>)
                     else Inr t)
      else Inr t)"

definition fix_last_exon :: "transcript \<Rightarrow> error + transcript" where
  "fix_last_exon t =
     (if snd (last (exons t)) < t_end t then
        (case selected_cds_item t True of
           Inl e \<Rightarrow> Inl e
         | Inr c \<Rightarrow> if snd c = t_end t
                     then Inr (t\<lparr>exons := (exons t)[length (exons t) - 1 :=
                                                      (fst (last (exons t)), t_end t)]\<rparr>)
                     else Inr t)
      else Inr t)"

definition check_bounds :: "transcript \<Rightarrow> error + transcript" where
  "check_bounds t =
     (if exons t = [] then Inl InvalidTranscript
      else if fst (hd (exons t)) \<noteq> t_start t \<or> snd (last (exons t)) \<noteq> t_end t then
        (case fix_first_exon t of
           Inl e \<Rightarrow> Inl (catch_index e)
         | Inr t1 \<Rightarrow>
            (case fix_last_exon t1 of
               Inl e \<Rightarrow> Inl (catch_index e)
             | Inr t2 \<Rightarrow>
                 if fst (hd (exons t2)) \<noteq> t_start t2 \<or> snd (last (exons t2)) \<noteq> t_end t2
                 then Inl InvalidTranscript else Inr t2))
      else Inr t)"

text \<open>Sequencing of steps that may raise.\<close>

definition and_then :: "error + 'a \<Rightarrow> ('a \<Rightarrow> error + 'b) \<Rightarrow> error + 'b" where
  "and_then r f = (case r of Inl e \<Rightarrow> Inl e | Inr x \<Rightarrow> f x)"

text \<open>The segments, the single internal ORF, the introns and the splice sites.\<close>

definition finalize_orfs :: "interval list \<Rightarrow> transcript \<Rightarrow> transcript" where
  "finalize_orfs ins t =
     (let segs = make_segments (exons t) (combined_cds t) (combined_utr t);
          t3 = t\<lparr>segments := segs, internal_orfs := internal_orfs t @ [segs]\<rparr>;
          t4 = (if combined_cds_length t3 > 0
                then t3\<lparr>selected_internal_orf_index := Some 0\<rparr> else t3)
      in t4\<lparr>introns := set ins,
             splices := set (concat (map (\<lambda>i. [fst i, snd i]) ins))\<rparr>)"

text \<open>\<open>Transcript.finalize\<close>.\<close>

definition finalize :: "transcript \<Rightarrow> error + transcript" where
  "finalize t =
     (if finalized t then Inr t
      else if exons t = [] then Inl InvalidTranscript
      else if length (exons t) > 1 \<and> strand t = None then Inl InvalidTranscript
      else if combined_utr t \<noteq> [] \<and> combined_cds t = [] then Inl InvalidTranscript
      else
        and_then (finalize_utr (t\<lparr>exons := sort (exons t)\<rparr>)) (\<lambda>t1.
        and_then (exon_introns (exons t1)) (\<lambda>ins.
        and_then (codon_flags (t1\<lparr>internal_orfs := [],
                                   combined_cds := sort (combined_cds t1),
                                   combined_utr := sort (combined_utr t1)\<rparr>)) (\<lambda>t2.
        and_then (selected_internal_orf_check (finalize_orfs ins t2)) (\<lambda>t6.
        and_then (check_bounds (if combined_cds t6 \<noteq> [] then t6\<lparr>feature := ''mRNA''\<rparr> else t6))
          (\<lambda>t7. Inr (t7\<lparr>finalized := True\<rparr>)))))))"

text \<open>
  The scenario of the specification: exons \<open>[(1,100),(201,300),(401,500)]\<close> on the plus
  strand with the single CDS interval \<open>(250,280)\<close>, before \<open>finalize\<close>.
\<close>

definition scenario :: transcript where
  "scenario =
     \<lparr>tid = ''t1'', chrom = ''chr1'', strand = Some Plus, t_start = 1, t_end = 500,
      exons = [(1, 100), (201, 300), (401, 500)], combined_cds = [(250, 280)],
      combined_utr = [], finalized = False,
      has_start_codon = False, has_stop_codon = False,
      internal_orfs = [], segments = [],
      selected_internal_orf_index = None, introns = {}, splices = {},
      feature = ''transcript'', loaded_bed12 = [], blast_hits = [], json_dict = None\<rparr>"

text \<open>A monoexonic transcript annotated with a CDS and with only a part of its UTR.\<close>

definition partial_utr :: transcript where
  "partial_utr =
     scenario\<lparr>t_end := 100, exons := [(1, 100)], combined_cds := [(10, 20)],
              combined_utr := [(1, 5)]\<rparr>"

text \<open>
  A monoexonic transcript whose exon ends at 100 and whose CDS \<open>(50, 101)\<close> reaches the
  declared end of the transcript, 101, with no UTR given.
\<close>

definition overhanging_cds :: transcript where
  "overhanging_cds =
     scenario\<lparr>t_end := 101, exons := [(1, 100)], combined_cds := [(50, 101)]\<rparr>"

text \<open>A monoexonic transcript of 100 bases annotated with a CDS of 200 bases.\<close>

definition long_cds :: transcript where
  "long_cds = scenario\<lparr>t_end := 100, exons := [(1, 100)], combined_cds := [(1, 200)]\<rparr>"

section \<open>Abstractlocus: adding and removing transcripts\<close>

text \<open>
  The bounds of a locus are Python integers, or the floats \<open>inf\<close> and \<open>-inf\<close> once
  its last transcript was removed.
\<close>

datatype bound = NegInf | Fin int | PosInf

text \<open>Python's \<open>\<le>\<close>, \<open>min\<close> and \<open>max\<close> on such values (the first argument wins a tie).\<close>

fun ble :: "bound \<Rightarrow> bound \<Rightarrow> bool" where
  "ble NegInf _ = True"
| "ble _ PosInf = True"
| "ble (Fin a) (Fin b) = (a \<le> b)"
| "ble _ _ = False"

definition bmin :: "bound \<Rightarrow> bound \<Rightarrow> bound" where
  "bmin a b = (if ble b a \<and> \<not> ble a b then b else a)"

definition bmax :: "bound \<Rightarrow> bound \<Rightarrow> bound" where
  "bmax a b = (if ble a b \<and> \<not> ble b a then b else a)"

text \<open>\<open>sys.maxsize\<close> on a 64-bit platform.\<close>

definition maxsize :: int where
  "maxsize = 2 ^ 63 - 1"

text \<open>
  The attributes of \<open>Abstractlocus\<close> that adding and removing transcripts read or
  write; \<open>transcripts\<close> is the dictionary from ids to transcripts, kept in insertion
  order.
\<close>

record locus =
  transcripts :: "(string \<times> transcript) list"
  l_introns :: "interval set"
  l_exons :: "interval set"
  l_splices :: "int set"
  l_combined_cds_introns :: "interval set"
  l_selected_cds_introns :: "interval set"
  cds_introns :: "interval set"
  l_start :: bound
  l_end :: bound
  l_strand :: "strand option"
  stranded :: bool
  initialized :: bool
  l_monoexonic :: bool
  l_chrom :: "string option"

text \<open>The locus that \<open>__init__\<close> leaves.\<close>

definition new_locus :: locus where
  "new_locus =
     \<lparr>transcripts = [], l_introns = {}, l_exons = {}, l_splices = {},
      l_combined_cds_introns = {}, l_selected_cds_introns = {}, cds_introns = {},
      l_start = Fin maxsize, l_end = Fin (- maxsize), l_strand = None, stranded = True,
      initialized = False, l_monoexonic = True, l_chrom = None\<rparr>"

text \<open>The transcript properties that the locus reads.\<close>

definition monoexonic :: "transcript \<Rightarrow> bool" where
  "monoexonic t = (length (exons t) = 1)"

fun consecutive_gaps :: "interval list \<Rightarrow> interval list" where
  "consecutive_gaps (a # b # rest) = (snd a + 1, fst b - 1) # consecutive_gaps (b # rest)"
| "consecutive_gaps _ = []"

definition selected_cds_introns :: "transcript \<Rightarrow> error + interval set" where
  "selected_cds_introns t =
     and_then (selected_cds t) (\<lambda>sel.
       if length sel < 2 then Inr {}
       else if length (internal_orfs t) = 0 \<or> length (combined_cds t) < 2 then Inr {}
       else Inr (set (consecutive_gaps sel)))"

definition combined_cds_introns :: "transcript \<Rightarrow> error + interval set" where
  "combined_cds_introns t =
     (if length (internal_orfs t) < 2 then selected_cds_introns t
      else if length (internal_orfs t) = 0 \<or> length (combined_cds t) < 2 then Inr {}
      else Inr (set (filter (\<lambda>junc. junc \<in> introns t) (consecutive_gaps (combined_cds t)))))"

text \<open>
  \<open>overlap(lbound, tbound) > 0\<close> with flank 0, where the bounds of the locus may be
  infinite: a difference with an infinite operand is not positive here, since the left
  boundary can only be \<open>inf\<close> and the right one only \<open>-inf\<close>.
\<close>

definition overlap_positive :: "bound \<times> bound \<Rightarrow> interval \<Rightarrow> bool" where
  "overlap_positive lbound tbound =
     (let lb = (if ble (fst lbound) (snd lbound) then lbound else (snd lbound, fst lbound));
          tb = sorted_pair tbound;
          left_boundary = bmax (fst lb) (Fin (fst tb));
          right_boundary = bmin (snd lb) (Fin (snd tb))
      in case (left_boundary, right_boundary) of
           (Fin l, Fin r) \<Rightarrow> r - l > 0
         | _ \<Rightarrow> False)"

text \<open>\<open>Abstractlocus.in_locus\<close>, on a transcript that is finalized already.\<close>

definition in_locus :: "locus \<Rightarrow> transcript \<Rightarrow> bool" where
  "in_locus l t =
     (l_chrom l = Some (chrom t) \<and>
      (\<not> stranded l \<or> l_strand l = strand t) \<and>
      overlap_positive (l_start l, l_end l) (t_start t, t_end t))"

text \<open>\<open>d[k] = v\<close> on a dictionary kept as an association list.\<close>

definition dict_set :: "('k \<times> 'v) list \<Rightarrow> 'k \<Rightarrow> 'v \<Rightarrow> ('k \<times> 'v) list" where
  "dict_set d k v =
     (if k \<in> fst ` set d then map (\<lambda>kv. if fst kv = k then (k, v) else kv) d
      else d @ [(k, v)])"

text \<open>
  \<open>add_transcript_to_locus\<close>, in the order of its statements: the bounds, the store and
  the splice sites first, the assertions and the CDS introns after them.  The locus is
  returned as the call leaves it, with the exception raised, if any.
\<close>

definition add_bounds :: "locus \<Rightarrow> transcript \<Rightarrow> locus" where
  "add_bounds l t =
     (let l2 = (if initialized l then l
                else l\<lparr>l_strand := strand t, l_chrom := Some (chrom t)\<rparr>)
      in l2\<lparr>l_start := bmin (l_start l2) (Fin (t_start t)),
             l_end := bmax (l_end l2) (Fin (t_end t)),
             transcripts := dict_set (transcripts l2) (tid t) t,
             l_splices := l_splices l2 \<union> splices t,
             l_introns := l_introns l2 \<union> introns t\<rparr>)"

definition add_selected :: "locus \<Rightarrow> transcript \<Rightarrow> locus \<times> error option" where
  "add_selected l t =
     (case selected_cds_introns t of
        Inl e \<Rightarrow> (l, Some e)
      | Inr sci \<Rightarrow>
          (l\<lparr>l_selected_cds_introns := l_selected_cds_introns l \<union> sci,
             l_exons := l_exons l \<union> set (exons t),
             initialized := True\<rparr>, None))"

definition add_derived :: "locus \<Rightarrow> transcript \<Rightarrow> locus \<times> error option" where
  "add_derived l t =
     (if \<not> monoexonic t \<and> l_introns l = {} then (l, Some AssertionError)
      else
        (case combined_cds_introns t of
           Inl e \<Rightarrow> (l, Some e)
         | Inr cci \<Rightarrow>
             (let l4 = l\<lparr>l_combined_cds_introns := l_combined_cds_introns l \<union> cci\<rparr>
              in if \<not> card cci \<le> card (l_combined_cds_introns l4)
                 then (l4, Some AssertionError)
                 else add_selected l4 t)))"

definition add_transcript_to_locus :: "locus \<Rightarrow> transcript \<Rightarrow> bool \<Rightarrow> locus \<times> error option" where
  "add_transcript_to_locus l tr check_in_locus =
     (case finalize tr of
        Inl e \<Rightarrow> (l, Some e)
      | Inr t \<Rightarrow>
          (let l1 = l\<lparr>l_monoexonic := l_monoexonic l \<and> monoexonic t\<rparr>
           in if initialized l1 \<and> check_in_locus \<and> \<not> in_locus l1 t
              then (l1, Some NotInLocusError)
              else add_derived (add_bounds l1 t) t))"

text \<open>\<open>max\<close> and \<open>min\<close> of a generator: \<open>ValueError\<close> when it is empty.\<close>

definition py_max :: "int list \<Rightarrow> error + int" where
  "py_max xs = (case xs of [] \<Rightarrow> Inl ValueError | x # ys \<Rightarrow> Inr (fold max ys x))"

definition py_min :: "int list \<Rightarrow> error + int" where
  "py_min xs = (case xs of [] \<Rightarrow> Inl ValueError | x # ys \<Rightarrow> Inr (fold min ys x))"

text \<open>The union of a set-valued property over a list of transcripts; the first
  exception wins.\<close>

fun collect :: "('a \<Rightarrow> error + 'b set) \<Rightarrow> 'a list \<Rightarrow> error + 'b set" where
  "collect f [] = Inr {}"
| "collect f (x # xs) =
     (case f x of
        Inl e \<Rightarrow> Inl e
      | Inr a \<Rightarrow> (case collect f xs of Inl e \<Rightarrow> Inl e | Inr b \<Rightarrow> Inr (a \<union> b)))"

text \<open>\<open>remove_transcript_from_locus\<close>, in the order of its statements.\<close>

definition remove_cds_introns :: "locus \<Rightarrow> transcript \<Rightarrow> transcript list \<Rightarrow> error + locus" where
  "remove_cds_introns l gone others =
     and_then (collect combined_cds_introns others) (\<lambda>other_cds_introns.
     and_then (collect combined_cds_introns others) (\<lambda>again.
     and_then (combined_cds_introns gone) (\<lambda>mine.
       Inr (l\<lparr>l_combined_cds_introns :=
                 l_combined_cds_introns l - (mine - (other_cds_introns \<union> again))\<rparr>))))"

definition remove_selected_cds_introns ::
  "locus \<Rightarrow> transcript \<Rightarrow> transcript list \<Rightarrow> error + locus" where
  "remove_selected_cds_introns l gone others =
     and_then (collect selected_cds_introns others) (\<lambda>other_selected.
     and_then (selected_cds_introns gone) (\<lambda>mine.
       Inr (l\<lparr>l_selected_cds_introns := l_selected_cds_introns l - (mine - other_selected)\<rparr>)))"

definition remove_bounds :: "locus \<Rightarrow> transcript list \<Rightarrow> error + locus" where
  "remove_bounds l others =
     and_then (py_max (map t_end others)) (\<lambda>e.
     and_then (py_min (map t_start others)) (\<lambda>s.
       Inr (l\<lparr>l_end := Fin e, l_start := Fin s\<rparr>)))"

definition remove_exons_introns :: "locus \<Rightarrow> transcript \<Rightarrow> transcript list \<Rightarrow> locus" where
  "remove_exons_introns l gone others =
     l\<lparr>l_exons := l_exons l - (set (exons gone) - (\<Union>x\<in>set others. set (exons x))),
       l_introns := l_introns l - (introns gone - (\<Union>x\<in>set others. introns x))\<rparr>"

definition remove_transcript_from_locus :: "locus \<Rightarrow> string \<Rightarrow> locus \<times> error option" where
  "remove_transcript_from_locus l k =
     (case map_of (transcripts l) k of
        None \<Rightarrow> (l, Some KeyError)
      | Some gone \<Rightarrow>
          if length (transcripts l) = 1 then
            (l\<lparr>transcripts := [], l_introns := {}, l_exons := {}, l_splices := {},
               cds_introns := {}, l_selected_cds_introns := {},
               l_start := PosInf, l_end := NegInf, l_strand := None,
               stranded := True, initialized := False\<rparr>, None)
          else
            (let keep = filter (\<lambda>kv. fst kv \<noteq> k) (transcripts l);
                 others = map snd keep
             in case remove_bounds l others of
                  Inl e \<Rightarrow> (l, Some e)
                | Inr l1 \<Rightarrow>
                    (let l2 = remove_exons_introns l1 gone others
                     in case remove_cds_introns l2 gone others of
                          Inl e \<Rightarrow> (l2, Some e)
                        | Inr l3 \<Rightarrow>
                            (case remove_selected_cds_introns l3 gone others of
                               Inl e \<Rightarrow> (l3, Some e)
                             | Inr l4 \<Rightarrow>
                                 (l4\<lparr>l_splices := l_splices l4 -
                                        (splices gone - (\<Union>x\<in>set others. splices x)),
                                      transcripts := keep\<rparr>, None)))))"

text \<open>
  Sequences of operations on a locus.  A sequence runs until an operation raises.
\<close>

datatype locus_op = Add transcript bool | Remove string

definition apply_op :: "locus \<Rightarrow> locus_op \<Rightarrow> locus \<times> error option" where
  "apply_op l x =
     (case x of
        Add t check_in_locus \<Rightarrow> add_transcript_to_locus l t check_in_locus
      | Remove k \<Rightarrow> remove_transcript_from_locus l k)"

fun run_ops :: "locus \<Rightarrow> locus_op list \<Rightarrow> error + locus" where
  "run_ops l [] = Inr l"
| "run_ops l (x # xs) =
     (case apply_op l x of
        (l', None) \<Rightarrow> run_ops l' xs
      | (l', Some e) \<Rightarrow> Inl e)"


text \<open>
  The sequences the bounds can be trusted on: each transcript added has an id that the
  locus does not hold at that moment, and coordinates within \<open>sys.maxsize\<close>.
\<close>

fun ops_ok :: "locus \<Rightarrow> locus_op list \<Rightarrow> bool" where
  "ops_ok l [] = True"
| "ops_ok l (Remove k # xs) =
     (case remove_transcript_from_locus l k of
        (l', None) \<Rightarrow> ops_ok l' xs
      | (l', Some e) \<Rightarrow> True)"
| "ops_ok l (Add t c # xs) =
     (tid t \<notin> fst ` set (transcripts l) \<and> t_start t \<le> maxsize \<and> - maxsize \<le> t_end t \<and>
      (case add_transcript_to_locus l t c of
         (l', None) \<Rightarrow> ops_ok l' xs
       | (l', Some e) \<Rightarrow> True))"

definition starts :: "locus \<Rightarrow> int list" where
  "starts l = map (\<lambda>kv. t_start (snd kv)) (transcripts l)"

definition ends :: "locus \<Rightarrow> int list" where
  "ends l = map (\<lambda>kv. t_end (snd kv)) (transcripts l)"

definition locus_inv :: "locus \<Rightarrow> bool" where
  "locus_inv l =
     (distinct (map fst (transcripts l)) \<and>
      (if transcripts l = []
       then (l_start l = Fin maxsize \<or> l_start l = PosInf) \<and>
            (l_end l = Fin (- maxsize) \<or> l_end l = NegInf)
       else l_start l = Fin (Min (set (starts l))) \<and> l_end l = Fin (Max (set (ends l)))))"

text \<open>Three finalized monoexonic transcripts; two of them share the id \<open>a\<close>.\<close>

definition tr_a :: transcript where
  "tr_a = finalized_example\<lparr>tid := ''a'', t_start := 1, t_end := 10, exons := [(1, 10)],
            internal_orfs := [[(''exon'', 1, 10)]], segments := [(''exon'', 1, 10)]\<rparr>"

definition tr_a_again :: transcript where
  "tr_a_again = tr_a\<lparr>t_start := 5, t_end := 8, exons := [(5, 8)],
            internal_orfs := [[(''exon'', 5, 8)]], segments := [(''exon'', 5, 8)]\<rparr>"

definition tr_c :: transcript where
  "tr_c = tr_a\<lparr>tid := ''c'', t_start := 5, t_end := 20, exons := [(5, 20)],
            internal_orfs := [[(''exon'', 5, 20)]], segments := [(''exon'', 5, 20)]\<rparr>"

section \<open>Transcript.load\_orfs\<close>

text \<open>
  \<open>sorted(xs, key=..., reverse=True)\<close>: decreasing keys, elements with equal keys in
  their original order.
\<close>

definition sorted_desc :: "('a \<Rightarrow> int) \<Rightarrow> 'a list \<Rightarrow> 'a list" where
  "sorted_desc key xs = rev (sort_key key (rev xs))"

text \<open>
  \<open>new_orfs\<close>: the first element of each community of overlapping ORFs once it is
  sorted by decreasing CDS length.  The communities are a Python set; they come here in
  the order the set is iterated in.
\<close>

fun representatives :: "orf list list \<Rightarrow> error + orf list" where
  "representatives [] = Inr []"
| "representatives (clique # rest) =
     (case sorted_desc cds_len clique of
        [] \<Rightarrow> Inl IndexError
      | best # _ \<Rightarrow> and_then (representatives rest) (\<lambda>others. Inr (best # others)))"

text \<open>
  \<open>candidate_orfs\<close> after the filter on the minimal secondary ORF length: the first
  of \<open>new_orfs\<close>, and of the others those that are longer than the minimum and valid.
\<close>

definition retained_orfs :: "int \<Rightarrow> orf list \<Rightarrow> orf list" where
  "retained_orfs minimal new_orfs =
     (case new_orfs of
        [] \<Rightarrow> []
      | first # others \<Rightarrow>
          first # filter (\<lambda>x. \<not> invalid x) (filter (\<lambda>x. cds_len x > minimal) others))"

text \<open>The strand filter on the candidates.\<close>

definition strand_filter :: "transcript \<Rightarrow> orf list \<Rightarrow> orf list" where
  "strand_filter t candidate_orfs =
     (if \<not> (monoexonic t \<and> strand t = None)
      then filter (\<lambda>co. o_strand co = Some Plus) candidate_orfs
      else filter (\<lambda>co. o_strand co = o_strand (hd candidate_orfs)) candidate_orfs)"

text \<open>
  The projection of an ORF on the exons of a transcript on the plus strand: the loop
  over the sorted exons, with \<open>current_start\<close> and \<open>current_end\<close> as they are when an
  iteration begins.
\<close>

fun project_plus :: "orf \<Rightarrow> int \<Rightarrow> int \<Rightarrow> interval list \<Rightarrow> segment list" where
  "project_plus x current_start current_end [] = []"
| "project_plus x current_start current_end (exon # rest) =
     (let current_start = current_start + 1;
          current_end = current_end + (snd exon - fst exon + 1);
          c_start = fst exon + max 0 (thickStart x - current_start);
          c_end = snd exon - max 0 (current_end - thickEnd x)
      in [(''exon'', fst exon, snd exon)] @
         (if current_end < thickStart x \<or> current_start > thickEnd x
          then [(''UTR'', fst exon, snd exon)]
          else (if c_start > fst exon then [(''UTR'', fst exon, c_start - 1)] else []) @
               (if c_start \<le> c_end then [(''CDS'', c_start, c_end)] else []) @
               (if c_end < snd exon then [(''UTR'', c_end + 1, snd exon)] else [])) @
         project_plus x current_end current_end rest)"

text \<open>The same on the minus strand, over the exons in decreasing order.\<close>

fun project_minus :: "orf \<Rightarrow> int \<Rightarrow> int \<Rightarrow> interval list \<Rightarrow> segment list" where
  "project_minus x current_start current_end [] = []"
| "project_minus x current_start current_end (exon # rest) =
     (let current_start = current_start + 1;
          current_end = current_end + (snd exon - fst exon + 1);
          c_end = snd exon - max 0 (thickStart x - current_start);
          c_start = fst exon + max 0 (current_end - thickEnd x)
      in [(''exon'', fst exon, snd exon)] @
         (if current_end < thickStart x \<or> current_start > thickEnd x
          then [(''UTR'', fst exon, snd exon)]
          else (if c_end < snd exon then [(''UTR'', c_end + 1, snd exon)] else []) @
               [(''CDS'', c_start, c_end)] @
               (if c_start > fst exon then [(''UTR'', fst exon, c_start - 1)] else [])) @
         project_minus x current_end current_end rest)"

text \<open>The segments of one ORF, sorted by start and end; none without a strand.\<close>

definition project_orf :: "transcript \<Rightarrow> orf \<Rightarrow> segment list" where
  "project_orf t x =
     (let cds_exons =
        (case strand t of
           Some Plus \<Rightarrow> project_plus x 0 0 (sort (exons t))
         | Some Minus \<Rightarrow> project_minus x 0 0 (rev (sort (rev (exons t))))
         | None \<Rightarrow> [])
      in sort_key (\<lambda>s. (fst (snd s), snd (snd s))) cds_exons)"

text \<open>
  The loop of \<open>load_orfs\<close> over the candidates: an ORF that does not fit the cDNA is
  skipped, any other one is recorded in \<open>loaded_bed12\<close> and projected.
\<close>

fun load_orf_loop :: "bool \<Rightarrow> transcript \<Rightarrow> orf list \<Rightarrow> transcript" where
  "load_orf_loop primary_orf t [] = t"
| "load_orf_loop primary_orf t (x # rest) =
     (let t1 = (if primary_orf
                then t\<lparr>has_start_codon := o_has_start_codon x,
                       has_stop_codon := o_has_stop_codon x\<rparr>
                else t)
      in if \<not> (thickStart x \<ge> 1 \<and> thickEnd x \<le> cdna_length t1) \<or> \<not> (o_len x = cdna_length t1)
         then load_orf_loop False t1 rest
         else
           let t2 = (if strand t1 = None then t1\<lparr>strand := o_strand x\<rparr> else t1);
               t3 = t2\<lparr>loaded_bed12 := loaded_bed12 t2 @ [x]\<rparr>
           in load_orf_loop False (t3\<lparr>internal_orfs := internal_orfs t3 @ [project_orf t3 x]\<rparr>) rest)"

text \<open>The intervals of the segments of one kind.\<close>

definition segments_of :: "string \<Rightarrow> segment list \<Rightarrow> interval list" where
  "segments_of kind segs = map snd (filter (\<lambda>x. fst x = kind) segs)"

text \<open>The maximal runs of consecutive positions, from the sorted positions.\<close>

fun utr_runs :: "interval option \<Rightarrow> int list \<Rightarrow> interval list" where
  "utr_runs curr_utr_segment [] =
     (case curr_utr_segment of None \<Rightarrow> [] | Some seg \<Rightarrow> [seg])"
| "utr_runs curr_utr_segment (pos # rest) =
     (case curr_utr_segment of
        None \<Rightarrow> utr_runs (Some (pos, pos)) rest
      | Some seg \<Rightarrow>
          if pos = snd seg + 1 then utr_runs (Some (fst seg, pos)) rest
          else seg # utr_runs (Some (pos, pos)) rest)"

text \<open>The positions that a list of intervals covers, and those of the exons that no
  combined CDS interval covers.\<close>

definition positions :: "interval list \<Rightarrow> int list" where
  "positions ivs = concat (map (\<lambda>iv. [fst iv .. snd iv]) ivs)"

definition utr_pos :: "transcript \<Rightarrow> int list" where
  "utr_pos t =
     sort (remdups (filter (\<lambda>p. p \<notin> set (positions (combined_cds t))) (positions (exons t))))"

text \<open>The span of each community of CDS segments.\<close>

definition community_span :: "interval list \<Rightarrow> error + interval" where
  "community_span mc =
     and_then (py_min (map fst mc)) (\<lambda>lo.
     and_then (py_max (map snd mc)) (\<lambda>hi. Inr (lo, hi)))"

fun community_spans :: "interval list list \<Rightarrow> error + interval list" where
  "community_spans [] = Inr []"
| "community_spans (mc # rest) =
     and_then (community_span mc) (\<lambda>span.
     and_then (community_spans rest) (\<lambda>spans. Inr (span # spans)))"

text \<open>
  The combined CDS and UTR once the ORFs are projected.  With several ORFs the CDS
  segments are grouped by \<open>find_communities\<close>, whose clique finder is a library that is
  not part of these sources: the function is a parameter of the model.  The UTR is
  what the exons cover and the combined CDS does not; \<open>set.union(*[])\<close> raises
  \<open>TypeError\<close>, which happens when there is no exon or no combined CDS interval.  The
  assertion on the lengths ends this case.
\<close>

definition combine_orfs ::
  "(interval list \<Rightarrow> interval list list) \<Rightarrow> transcript \<Rightarrow> error + transcript" where
  "combine_orfs find_communities t =
     (if length (internal_orfs t) = 1 then
        Inr (t\<lparr>combined_cds := sort (segments_of ''CDS'' (internal_orfs t ! 0)),
               combined_utr := sort (segments_of ''UTR'' (internal_orfs t ! 0))\<rparr>)
      else if length (internal_orfs t) > 1 then
        and_then (community_spans
                    (find_communities (concat (map (segments_of ''CDS'') (internal_orfs t)))))
          (\<lambda>cds_spans.
             let t1 = t\<lparr>combined_cds := sort cds_spans\<rparr>;
                 t2 = t1\<lparr>combined_utr := combined_utr t1 @ utr_runs None (utr_pos t1)\<rparr>
             in if exons t1 = [] \<or> combined_cds t1 = [] then Inl TypeError
                else if cdna_length t2 = combined_cds_length t2 + combined_utr_length t2
                then Inr t2 else Inl AssertionError)
      else Inr t)"

text \<open>\<open>load_orfs\<close> from the point where some candidate is retained.\<close>

definition load_retained ::
  "(interval list \<Rightarrow> interval list list) \<Rightarrow> transcript \<Rightarrow> orf list \<Rightarrow> error + transcript" where
  "load_retained find_communities t candidates =
     (let t1 = t\<lparr>combined_utr := [], combined_cds := [], internal_orfs := [],
                finalized := False, loaded_bed12 := []\<rparr>;
          t2 = load_orf_loop True t1 (sorted_desc cds_len (strand_filter t1 candidates))
      in and_then (combine_orfs find_communities t2) (\<lambda>t3.
           if internal_orfs t3 = [] then finalize t3
           else Inr (t3\<lparr>feature := ''mRNA'', finalized := True\<rparr>)))"

text \<open>
  \<open>Transcript.load_orfs\<close>.  \<open>find_overlapping_cds\<close>, which relies on the same library,
  is the other parameter.
\<close>

definition load_orfs ::
  "(orf list \<Rightarrow> orf list list) \<Rightarrow> (interval list \<Rightarrow> interval list list) \<Rightarrow>
   transcript \<Rightarrow> orf list \<Rightarrow> error + transcript" where
  "load_orfs find_overlapping_cds find_communities tr candidate_orfs =
     and_then (finalize tr) (\<lambda>t.
     and_then (representatives (find_overlapping_cds candidate_orfs)) (\<lambda>new_orfs.
       let minimal = (case json_dict t of
                        Some conf \<Rightarrow> minimal_secondary_orf_length conf | None \<Rightarrow> 0);
           candidates = retained_orfs minimal new_orfs
       in if candidates = [] then Inr t
          else load_retained find_communities t candidates))"

text \<open>
  The communities of objects none of which overlaps another, in the order of the
  objects.
\<close>

definition singletons :: "'a list \<Rightarrow> 'a list list" where
  "singletons xs = map (\<lambda>x. [x]) xs"

text \<open>
  Two ORFs that do not overlap, a monoexonic transcript of 20 bases without CDS, and
  a configuration that asks for secondary ORFs longer than 12.
\<close>

definition orf_short :: orf where
  "orf_short = \<lparr>o_name = ''short'', thickStart = 2, thickEnd = 4, o_strand = Some Plus,
                 cds_len = 3, o_len = 20, invalid = False,
                 o_has_start_codon = True, o_has_stop_codon = True\<rparr>"

definition orf_long :: orf where
  "orf_long = \<lparr>o_name = ''long'', thickStart = 8, thickEnd = 16, o_strand = Some Plus,
                cds_len = 9, o_len = 20, invalid = False,
                o_has_start_codon = True, o_has_stop_codon = True\<rparr>"

definition mono :: transcript where
  "mono = scenario\<lparr>t_start := 101, t_end := 120, exons := [(101, 120)], combined_cds := []\<rparr>"

definition strict_conf :: config where
  "strict_conf = \<lparr>minimal_secondary_orf_length = 12, blast_check = False,
                   leniency = ''LENIENT'', minimal_hsp_overlap = 0, hsp_evalue_max = 0\<rparr>"

text \<open>The summed length of the CDS and UTR segments of an ORF.\<close>

definition coding_balance :: "segment list \<Rightarrow> int" where
  "coding_balance segs =
     intervals_length (segments_of ''CDS'' segs) + intervals_length (segments_of ''UTR'' segs)"

text \<open>An ORF without CDS segment, or one whose CDS and UTR segments add up to \<open>n\<close>.\<close>

definition balanced :: "int \<Rightarrow> segment list \<Rightarrow> bool" where
  "balanced n segs = (segments_of ''CDS'' segs = [] \<or> coding_balance segs = n)"

text \<open>An interval of length zero or more.\<close>

definition loose :: "interval \<Rightarrow> bool" where
  "loose e = (fst e \<le> snd e + 1)"

section \<open>Clique enumeration and clique percolation\<close>

text \<open>
  An undirected graph: its nodes in iteration order (they are the keys of a dictionary,
  hence distinct) and its edges.  \<open>neighbours g u\<close> is \<open>G[u]\<close>.
\<close>

record 'a graph =
  g_nodes :: "'a list"
  g_edges :: "('a \<times> 'a) list"

definition adjacent :: "'a graph \<Rightarrow> 'a \<Rightarrow> 'a \<Rightarrow> bool" where
  "adjacent g u v = ((u, v) \<in> set (g_edges g) \<or> (v, u) \<in> set (g_edges g))"

definition neighbours :: "'a graph \<Rightarrow> 'a \<Rightarrow> 'a list" where
  "neighbours g u = filter (adjacent g u) (g_nodes g)"

text \<open>
  \<open>sorted(nbrs[u], key=index.__getitem__)\<close> in \<open>enumerate_all_cliques\<close>: the neighbours of
  \<open>u\<close> that are not indexed yet when \<open>u\<close> is, in the order of the nodes.
\<close>

definition nbrs :: "'a graph \<Rightarrow> 'a \<Rightarrow> 'a list" where
  "nbrs g u =
     filter (\<lambda>v. v \<notin> set (takeWhile (\<lambda>w. w \<noteq> u) (g_nodes g) @ [u])) (neighbours g u)"

text \<open>
  The pairs that one iteration of the \<open>while\<close> loop appends to the queue: for the
  \<open>i\<close>-th candidate \<open>u\<close>, the base extended by \<open>u\<close> and the later candidates that are
  neighbours of \<open>u\<close>.
\<close>

definition extensions :: "'a graph \<Rightarrow> 'a list \<Rightarrow> 'a list \<Rightarrow> ('a list \<times> 'a list) list" where
  "extensions g base cnbrs =
     map (\<lambda>i. (base @ [cnbrs ! i],
               filter (\<lambda>v. v \<in> set (nbrs g (cnbrs ! i))) (drop (i + 1) cnbrs)))
         [0 ..< length cnbrs]"

text \<open>The loop of \<open>enumerate_all_cliques\<close>, yielding the base of each pair it takes from
  the queue.  It ends because the candidate lists of the appended pairs are shorter.\<close>

definition queue_weight :: "('a list \<times> 'a list) list \<Rightarrow> nat" where
  "queue_weight queue = sum_list (map (\<lambda>e. 2 ^ length (snd e)) queue)"

function zhang_loop :: "'a graph \<Rightarrow> ('a list \<times> 'a list) list \<Rightarrow> 'a list list" where
  "zhang_loop g [] = []"
| "zhang_loop g ((base, cnbrs) # queue) =
     base # zhang_loop g (queue @ extensions g base cnbrs)"
  by pat_completeness auto
termination
proof (relation "measure (\<lambda>(g, queue). queue_weight queue)")
  show "wf (measure (\<lambda>(g, queue). queue_weight queue))" by simp
next
  fix g :: "'a graph" and base cnbrs :: "'a list" and queue :: "('a list \<times> 'a list) list"
  have w: "queue_weight (map (\<lambda>i. (f i, filter (P i) (drop (i + 1) cnbrs))) [0 ..< n])
           + 2 ^ (length cnbrs - n) \<le> 2 ^ length cnbrs"
    if "n \<le> length cnbrs" for n and f :: "nat \<Rightarrow> 'a list" and P
    using that
  proof (induction n)
    case 0
    then show ?case by (simp add: queue_weight_def)
  next
    case (Suc n)
    let ?S = "queue_weight (map (\<lambda>i. (f i, filter (P i) (drop (i + 1) cnbrs))) [0 ..< n])"
    have "length (filter (P n) (drop (n + 1) cnbrs)) \<le> length cnbrs - Suc n"
      by (rule order_trans [OF length_filter_le]) simp
    then have a: "(2::nat) ^ length (filter (P n) (drop (n + 1) cnbrs)) \<le> 2 ^ (length cnbrs - Suc n)"
      by simp
    have b: "(2::nat) ^ (length cnbrs - n) = 2 * 2 ^ (length cnbrs - Suc n)"
      using Suc.prems by (metis Suc_diff_Suc Suc_le_lessD power_Suc)
    have ih: "?S + 2 ^ (length cnbrs - n) \<le> 2 ^ length cnbrs"
      using Suc by simp
    have step: "queue_weight (map (\<lambda>i. (f i, filter (P i) (drop (i + 1) cnbrs))) [0 ..< Suc n])
                = ?S + 2 ^ length (filter (P n) (drop (n + 1) cnbrs))"
      by (simp add: queue_weight_def)
    show ?case
      unfolding step using a b ih by linarith
  qed
  from w [of "length cnbrs" "\<lambda>i. base @ [cnbrs ! i]" "\<lambda>i v. v \<in> set (nbrs g (cnbrs ! i))"]
  have "queue_weight (extensions g base cnbrs) < 2 ^ length cnbrs"
    by (simp add: extensions_def)
  then show "((g, queue @ extensions g base cnbrs), (g, (base, cnbrs) # queue))
        \<in> measure (\<lambda>(g, queue). queue_weight queue)"
    by (simp add: queue_weight_def)
qed

text \<open>\<open>enumerate_all_cliques\<close>: the queue starts with one pair for each node.\<close>

definition enumerate_all_cliques :: "'a graph \<Rightarrow> 'a list list" where
  "enumerate_all_cliques g = zhang_loop g (map (\<lambda>u. ([u], nbrs g u)) (g_nodes g))"

text \<open>
  Cliques and maximal cliques of a graph, as sets of nodes.  The exact algorithm,
  \<open>networkx.find_cliques_recursive\<close>, belongs to a library and is not modelled; by its
  contract it returns the maximal cliques.
\<close>

definition is_clique :: "'a graph \<Rightarrow> 'a set \<Rightarrow> bool" where
  "is_clique g c =
     (c \<noteq> {} \<and> c \<subseteq> set (g_nodes g) \<and> (\<forall>u\<in>c. \<forall>v\<in>c. u \<noteq> v \<longrightarrow> adjacent g u v))"

definition maximal_clique :: "'a graph \<Rightarrow> 'a set \<Rightarrow> bool" where
  "maximal_clique g c =
     (is_clique g c \<and> (\<forall>v\<in>set (g_nodes g). v \<notin> c \<longrightarrow> \<not> (\<forall>u\<in>c. adjacent g u v)))"

text \<open>The candidate lists that can follow a base: the subsequences of \<open>cnbrs\<close> in which
  every element is a later neighbour of the ones before it.\<close>

definition chains :: "'a graph \<Rightarrow> 'a list \<Rightarrow> 'a list set" where
  "chains g cnbrs = {ys. subseq ys cnbrs \<and> sorted_wrt (\<lambda>a b. b \<in> set (nbrs g a)) ys}"

text \<open>Two nodes and the edge between them.\<close>

definition edge_graph :: "nat graph" where
  "edge_graph = \<lparr>g_nodes = [1, 2], g_edges = [(1, 2)]\<rparr>"

text \<open>
  \<open>reid_daid_hurley\<close>.  Cliques are frozensets.  \<open>nodes_to_clique_dict\<close> maps a node to
  the cliques that are registered under it; a clique is registered under all of its
  nodes or under none, so the dictionary is kept as the list \<open>live\<close> of the registered
  cliques.  \<open>cliques_to_components_dict\<close> is an association list in insertion order, and
  the frontier, a Python set, is a list whose first element is the one popped.
\<close>

type_synonym 'a components = "('a set \<times> nat) list"

definition unvisited_neighbours :: "'a set \<Rightarrow> 'a set list \<Rightarrow> 'a set list" where
  "unvisited_neighbours current_clique live =
     filter (\<lambda>clique. clique \<noteq> current_clique \<and> clique \<inter> current_clique \<noteq> {}) live"

text \<open>
  The \<open>for\<close> loop over the unvisited neighbours of the current clique.  Removing a
  clique that is not registered raises \<open>KeyError\<close>.
\<close>

fun visit_neighbours ::
  "int \<Rightarrow> nat \<Rightarrow> 'a set \<Rightarrow> 'a set list \<Rightarrow> 'a components \<times> 'a set list \<times> 'a set list \<Rightarrow>
   error + 'a components \<times> 'a set list \<times> 'a set list" where
  "visit_neighbours k current_component current_clique [] st = Inr st"
| "visit_neighbours k current_component current_clique (neighbour # rest) (comps, frontier, live) =
     (if int (card (current_clique \<inter> neighbour)) \<ge> k - 1 then
        (if neighbour \<notin> set live then Inl KeyError
         else visit_neighbours k current_component current_clique rest
                (dict_set comps neighbour current_component,
                 List.insert neighbour frontier,
                 removeAll neighbour live))
      else visit_neighbours k current_component current_clique rest (comps, frontier, live))"

text \<open>The \<open>while\<close> loop over the frontier.  Every clique that joins the frontier leaves
  the registered ones, which bounds the number of iterations.\<close>

definition frontier_weight :: "'a components \<times> 'a set list \<times> 'a set list \<Rightarrow> nat" where
  "frontier_weight st = 2 * length (snd (snd st)) + length (fst (snd st))"

function explore ::
  "int \<Rightarrow> nat \<Rightarrow> 'a components \<times> 'a set list \<times> 'a set list \<Rightarrow>
   error + 'a components \<times> 'a set list" where
  "explore k current_component (comps, [], live) = Inr (comps, live)"
| "explore k current_component (comps, current_clique # frontier, live) =
     (case visit_neighbours k current_component current_clique
             (unvisited_neighbours current_clique live) (comps, frontier, live) of
        Inl e \<Rightarrow> Inl e
      | Inr st \<Rightarrow> explore k current_component st)"
  by pat_completeness auto
termination
proof (relation "measure (\<lambda>(k, n, st). frontier_weight st)")
  show "wf (measure (\<lambda>(k, n, st). frontier_weight st))" by simp
next
  fix k :: int and n :: nat and comps :: "'a components" and cur frontier live st
  assume v: "visit_neighbours k n cur (unvisited_neighbours cur live) (comps, frontier, live) = Inr st"
  have w: "frontier_weight st' \<le> frontier_weight st0"
    if "visit_neighbours k n cur nbs st0 = Inr st'" for nbs st0 st'
    using that
  proof (induction nbs arbitrary: st0)
    case Nil
    then show ?case by simp
  next
    case (Cons nb rest)
    obtain cs fr lv where st0: "st0 = (cs, fr, lv)" by (cases st0) auto
    show ?case
    proof (cases "int (card (cur \<inter> nb)) \<ge> k - 1")
      case True
      with Cons.prems st0 have inl: "nb \<in> set lv"
        and r: "visit_neighbours k n cur rest
                  (dict_set cs nb n, List.insert nb fr, removeAll nb lv) = Inr st'"
        by (auto split: if_splits)
      have "length (removeAll nb lv) < length lv"
        using inl by (simp add: length_removeAll_less)
      moreover have "length (List.insert nb fr) \<le> Suc (length fr)"
        by (simp add: List.insert_def)
      ultimately have "frontier_weight (dict_set cs nb n, List.insert nb fr, removeAll nb lv)
                       \<le> frontier_weight st0"
        by (simp add: frontier_weight_def st0)
      with Cons.IH [OF r] show ?thesis by simp
    next
      case False
      with Cons.prems st0 have "visit_neighbours k n cur rest st0 = Inr st'" by simp
      then show ?thesis by (rule Cons.IH)
    qed
  qed
  from w [OF v]
  show "((k, n, st), (k, n, comps, cur # frontier, live))
        \<in> measure (\<lambda>(k, n, st). frontier_weight st)"
    by (simp add: frontier_weight_def)
qed

text \<open>The loop over the cliques: a clique without component opens the next one.\<close>

fun rdh_loop ::
  "int \<Rightarrow> 'a set list \<Rightarrow> 'a components \<times> 'a set list \<times> nat \<Rightarrow>
   error + 'a components \<times> 'a set list \<times> nat" where
  "rdh_loop k [] st = Inr st"
| "rdh_loop k (clique # rest) (comps, live, current_component) =
     (if clique \<in> fst ` set comps then rdh_loop k rest (comps, live, current_component)
      else
        (case explore k (current_component + 1)
                (dict_set comps clique (current_component + 1), [clique], live) of
           Inl e \<Rightarrow> Inl e
         | Inr (comps', live') \<Rightarrow> rdh_loop k rest (comps', live', current_component + 1)))"

text \<open>The communities: the union of the cliques of each component.\<close>

definition add_to_community :: "(nat \<times> 'a set) list \<Rightarrow> 'a set \<times> nat \<Rightarrow> (nat \<times> 'a set) list" where
  "add_to_community communities entry =
     (let communities =
            (if snd entry \<notin> fst ` set communities then dict_set communities (snd entry) {}
             else communities)
      in map (\<lambda>kv. if fst kv = snd entry then (fst kv, snd kv \<union> fst entry) else kv) communities)"

definition communities_of :: "'a components \<Rightarrow> 'a set list" where
  "communities_of comps = map snd (foldl add_to_community [] comps)"

text \<open>\<open>reid_daid_hurley(graph, k, cliques)\<close> with the cliques given, as
  \<open>find_communities\<close> calls it.\<close>

definition reid_daid_hurley :: "int \<Rightarrow> 'a set list \<Rightarrow> error + 'a set list" where
  "reid_daid_hurley k cliques =
     (if k < 2 then Inl NetworkXError
      else
        let cliques = filter (\<lambda>c. int (card c) \<ge> k) cliques
        in and_then (rdh_loop k cliques ([], remdups cliques, 0))
             (\<lambda>st. Inr (communities_of (fst st))))"

text \<open>
  \<open>Abstractlocus.find_communities\<close>: the cliques come from \<open>enumerate_all_cliques\<close> when
  the graph has more than 200 nodes and from the exact algorithm otherwise (a parameter
  here); the communities are the cliques of one node and those of the percolation.
\<close>

definition find_communities ::
  "('a graph \<Rightarrow> 'a set list) \<Rightarrow> 'a graph \<Rightarrow> error + 'a set list \<times> 'a set set" where
  "find_communities find_cliques_recursive g =
     (let cliques = (if length (g_nodes g) > 200 then map set (enumerate_all_cliques g)
                     else find_cliques_recursive g)
      in and_then (reid_daid_hurley 2 cliques)
           (\<lambda>comms. Inr (cliques, set (filter (\<lambda>x. card x = 1) cliques) \<union> set comms)))"

text \<open>A community that holds a given set of nodes.\<close>

definition covered :: "(nat \<times> 'a set) list \<Rightarrow> 'a set \<Rightarrow> bool" where
  "covered communities c = (\<exists>kv\<in>set communities. c \<subseteq> snd kv)"

text \<open>A graph of 201 nodes with a single edge, between nodes 0 and 1.\<close>

definition large_graph :: "nat graph" where
  "large_graph = \<lparr>g_nodes = [0 ..< 201], g_edges = [(0, 1)]\<rparr>"

section \<open>Theorems\<close>

subsection \<open>Interval overlap\<close>

lemma overlap_wf:
  "fst a \<le> snd a \<Longrightarrow> fst b \<le> snd b \<Longrightarrow>
   overlap a b 0 = min (snd a) (snd b) - max (fst a) (fst b)"
  by (simp add: overlap_def sorted_pair_def Let_def)

lemma share_base_iff:
  "fst a \<le> snd a \<Longrightarrow> fst b \<le> snd b \<Longrightarrow>
   (bases a \<inter> bases b \<noteq> {}) = (0 \<le> overlap a b 0)"
  by (auto simp: overlap_wf bases_def)

text \<open>
  C5.  Under the inclusive convention \<open>overlap\<close> is positive exactly when the intervals
  share a base.  The code does not do this: \<open>(1, 5)\<close> and \<open>(5, 10)\<close> share base 5, and
  \<open>overlap\<close> returns 0, the value its documentation reserves for intervals that do not
  overlap.
\<close>

theorem overlap_one_shared_base:
  "overlap (1, 5) (5, 10) 0 = 0 \<and> 5 \<in> bases (1, 5) \<inter> bases (5, 10)"
  by (simp add: overlap_def sorted_pair_def bases_def)

subsection \<open>add\_exon on a finalized transcript\<close>

text \<open>
  C10.  On a finalized transcript \<open>add_exon\<close> raises \<open>ModificationError\<close> for every
  annotation line, and the transcript (its exon, CDS and UTR stores included) is as it
  was.
\<close>

theorem add_exon_finalized:
  "finalized t \<Longrightarrow>
   add_exon t g = (t, Some ModificationError) \<and>
   exons (fst (add_exon t g)) = exons t \<and>
   combined_cds (fst (add_exon t g)) = combined_cds t \<and>
   combined_utr (fst (add_exon t g)) = combined_utr t"
  by (simp add: add_exon_def)

theorem add_exon_finalized_witness:
  "finalized finalized_example \<and>
   add_exon finalized_example exon_line = (finalized_example, Some ModificationError) \<and>
   exons (fst (add_exon finalized_example exon_line)) = exons finalized_example \<and>
   combined_cds (fst (add_exon finalized_example exon_line)) = combined_cds finalized_example \<and>
   combined_utr (fst (add_exon finalized_example exon_line)) = combined_utr finalized_example"
  using add_exon_finalized [of finalized_example exon_line]
  by (simp add: finalized_example_def)

subsection \<open>Grouping of CDS boundaries under the STRINGENT policy\<close>

text \<open>
  C4 as stated fails: with BLAST checking enabled, the STRINGENT policy and no hit at
  all, two adjacent CDS boundaries end in one group (they are merged, not split).
\<close>

theorem stringent_no_hits_merged:
  "new_boundaries exact_product ''STRINGENT'' 0 0 [] [(1, 10), (20, 30)]
     = [[(1, 10), (20, 30)]]"
  by (simp add: new_boundaries_def boundary_step_def cds_hit_dict_def append_to_last_def)

text \<open>
  C4, amended.  Under the STRINGENT policy a CDS boundary opens a group of its own only
  when it and the boundary before it both have hit evidence and share no target; in
  every other situation (no evidence on either side, evidence on one side only, or a
  shared target) it joins the group of the boundary before it.
\<close>

theorem stringent_step:
  "groups \<noteq> [] \<Longrightarrow>
   boundary_step ''STRINGENT'' hit_dict groups b =
     (if hit_dict b \<noteq> {} \<and> hit_dict (last (last groups)) \<noteq> {}
         \<and> hit_dict b \<inter> hit_dict (last (last groups)) = {}
      then groups @ [[b]] else append_to_last groups b)"
  by (auto simp: boundary_step_def Let_def)

theorem stringent_step_witness:
  "[[(1, 10)]] \<noteq> ([] :: interval list list) \<and>
   boundary_step ''STRINGENT'' (cds_hit_dict exact_product 0 0 []) [[(1, 10)]] (20, 30)
     = [[(1, 10), (20, 30)]]"
  using stringent_step [of "[[(1, 10)]]" "cds_hit_dict exact_product 0 0 []" "(20, 30)"]
  by (simp add: cds_hit_dict_def append_to_last_def)

subsection \<open>Transcript.finalize\<close>

lemma intervals_length_insort:
  "intervals_length (insort x xs) = (snd x - fst x + 1) + intervals_length xs"
  by (induction xs) (auto simp: intervals_length_def)

lemma intervals_length_sort: "intervals_length (sort xs) = intervals_length xs"
  by (induction xs) (auto simp: intervals_length_insort, simp add: intervals_length_def)

lemma intervals_length_nonneg:
  "\<forall>c\<in>set xs. fst c \<le> snd c \<Longrightarrow> 0 \<le> intervals_length xs"
  by (induction xs) (auto simp: intervals_length_def)

lemma intervals_length_pos:
  "xs \<noteq> [] \<Longrightarrow> \<forall>c\<in>set xs. fst c \<le> snd c \<Longrightarrow> 0 < intervals_length xs"
  using intervals_length_nonneg [of "tl xs"]
  by (cases xs) (auto simp: intervals_length_def)

lemma and_then_Inr:
  "and_then r f = Inr y \<Longrightarrow> \<exists>x. r = Inr x \<and> f x = Inr y"
  by (cases r) (auto simp: and_then_def)

lemma finalize_utr_keeps:
  "finalize_utr s = Inr s1 \<Longrightarrow>
   exons s1 = exons s \<and> t_start s1 = t_start s \<and> t_end s1 = t_end s"
  by (auto simp: finalize_utr_def Let_def split: if_splits sum.splits)

lemma finalize_utr_lengths:
  assumes "finalize_utr s = Inr s1" "combined_cds s \<noteq> []" "combined_utr s = []"
    "\<forall>c\<in>set (combined_cds s). fst c \<le> snd c" "combined_cds_length s \<le> cdna_length s"
  shows "cdna_length s1 = combined_cds_length s1 + combined_utr_length s1"
proof (cases "cdna_length s > combined_utr_length s + combined_cds_length s")
  case True
  have pos: "0 < intervals_length (sort (combined_cds s))"
    using assms(2,4) by (simp add: intervals_length_sort intervals_length_pos)
  from True assms(1,2,3) pos show ?thesis
    by (auto simp: finalize_utr_def Let_def combined_cds_length_def combined_utr_length_def
        cdna_length_def split: if_splits sum.splits)
next
  case False
  with assms(1) have "s1 = s" by (simp add: finalize_utr_def)
  moreover have "combined_utr_length s = 0"
    using assms(3) by (simp add: combined_utr_length_def intervals_length_def)
  ultimately show ?thesis using False assms(5) by simp
qed

lemma codon_flags_keeps:
  "codon_flags s = Inr s1 \<Longrightarrow>
   exons s1 = exons s \<and> combined_cds s1 = combined_cds s \<and> combined_utr s1 = combined_utr s
   \<and> t_start s1 = t_start s \<and> t_end s1 = t_end s"
  by (auto simp: codon_flags_def Let_def split: if_splits option.splits strand.splits)

lemma finalize_orfs_keeps:
  "exons (finalize_orfs ins s) = exons s \<and> combined_cds (finalize_orfs ins s) = combined_cds s
   \<and> combined_utr (finalize_orfs ins s) = combined_utr s
   \<and> t_start (finalize_orfs ins s) = t_start s \<and> t_end (finalize_orfs ins s) = t_end s"
  by (simp add: finalize_orfs_def Let_def)

lemma selected_internal_orf_check_keeps:
  "selected_internal_orf_check s = Inr s1 \<Longrightarrow>
   exons s1 = exons s \<and> combined_cds s1 = combined_cds s \<and> combined_utr s1 = combined_utr s
   \<and> t_start s1 = t_start s \<and> t_end s1 = t_end s"
  by (auto simp: selected_internal_orf_check_def split: if_splits option.splits)

lemma check_bounds_matching:
  "check_bounds s = Inr s1 \<Longrightarrow> fst (hd (exons s)) = t_start s \<Longrightarrow>
   snd (last (exons s)) = t_end s \<Longrightarrow> s1 = s"
  by (auto simp: check_bounds_def split: if_splits)

text \<open>
  Where \<open>finalize\<close> does establish the equality of the lengths: the UTR is inferred (no
  UTR given, a cDNA at least as long as the CDS) and no exon is stretched afterwards.
\<close>

lemma finalize_lengths:
  assumes "finalize t = Inr t'" "\<not> finalized t"
    and "combined_cds t \<noteq> []" "combined_utr t = []"
    and "\<forall>c\<in>set (combined_cds t). fst c \<le> snd c"
    and "combined_cds_length t \<le> cdna_length t"
    and "fst (hd (sort (exons t))) = t_start t" "snd (last (sort (exons t))) = t_end t"
  shows "cdna_length t' = combined_cds_length t' + combined_utr_length t'"
proof -
  let ?s = "t\<lparr>exons := sort (exons t)\<rparr>"
  from assms(1,2) obtain t1 ins t2 t6 t7 where
    s1: "finalize_utr ?s = Inr t1"
    and s2: "codon_flags (t1\<lparr>internal_orfs := [], combined_cds := sort (combined_cds t1),
                              combined_utr := sort (combined_utr t1)\<rparr>) = Inr t2"
    and s3: "selected_internal_orf_check (finalize_orfs ins t2) = Inr t6"
    and s4: "check_bounds (if combined_cds t6 \<noteq> [] then t6\<lparr>feature := ''mRNA''\<rparr> else t6) = Inr t7"
    and s5: "t' = t7\<lparr>finalized := True\<rparr>"
    by (auto simp: finalize_def split: if_splits dest!: and_then_Inr)
  have l1: "cdna_length t1 = combined_cds_length t1 + combined_utr_length t1"
    using finalize_utr_lengths [OF s1] assms(3-6)
    by (simp add: cdna_length_def combined_cds_length_def intervals_length_sort)
  note k1 = finalize_utr_keeps [OF s1]
  note k2 = codon_flags_keeps [OF s2]
  note k3 = selected_internal_orf_check_keeps [OF s3] finalize_orfs_keeps [of ins t2]
  let ?u = "if combined_cds t6 \<noteq> [] then t6\<lparr>feature := ''mRNA''\<rparr> else t6"
  have e6: "exons ?u = sort (exons t)" "t_start ?u = t_start t" "t_end ?u = t_end t"
    using k1 k2 k3 by auto
  have "t7 = ?u"
    using check_bounds_matching [OF s4] e6 assms(7,8) by simp
  then have "exons t' = exons t1" "combined_cds t' = sort (combined_cds t1)"
    "combined_utr t' = sort (combined_utr t1)"
    using s5 k1 k2 k3 by auto
  then show ?thesis
    using l1 by (simp add: cdna_length_def combined_cds_length_def combined_utr_length_def
        intervals_length_sort)
qed

text \<open>
  C9.  The scenario of the specification: \<open>finalize\<close> succeeds and yields the introns
  \<open>{(101,200),(301,400)}\<close>, the combined UTR \<open>[(1,100),(201,249),(281,300),(401,500)]\<close>
  and a combined CDS length of 31.
\<close>

theorem finalize_scenario:
  "\<exists>t. finalize scenario = Inr t \<and> introns t = {(101, 200), (301, 400)} \<and>
       combined_utr t = [(1, 100), (201, 249), (281, 300), (401, 500)] \<and>
       combined_cds_length t = 31"
  by (simp add: finalize_def scenario_def finalize_utr_def cdna_length_def combined_cds_length_def
      combined_utr_length_def intervals_length_def codon_flags_def make_segments_def
      selected_internal_orf_check_def check_bounds_def Let_def and_then_def finalize_orfs_def)

text \<open>
  C1.  A finalized transcript with a CDS has a cDNA length equal to its CDS length plus
  its UTR length.  \<open>finalize\<close> does not ensure this: on a transcript whose single exon is
  \<open>(1, 100)\<close>, whose CDS is \<open>(50, 101)\<close> and whose declared end is 101, it infers the UTR
  \<open>[(1, 49), (102, 100)]\<close> from the exon as given and checks the equality
  (\<open>100 = 52 + 48\<close>), then stretches the exon to \<open>(1, 101)\<close> to meet the declared end and
  does not compute the UTR again.  The transcript is finalized with a cDNA length of
  101, a CDS length of 52 and a UTR length of 48.
\<close>

theorem finalize_stretched_exon:
  "map_sum id finalized (finalize overhanging_cds) = Inr True \<and>
   map_sum id exons (finalize overhanging_cds) = Inr [(1, 101)] \<and>
   map_sum id combined_cds (finalize overhanging_cds) = Inr [(50, 101)] \<and>
   map_sum id combined_utr (finalize overhanging_cds) = Inr [(1, 49), (102, 100)] \<and>
   map_sum id cdna_length (finalize overhanging_cds) = Inr 101 \<and>
   map_sum id combined_cds_length (finalize overhanging_cds) = Inr 52 \<and>
   map_sum id combined_utr_length (finalize overhanging_cds) = Inr 48"
  by (simp add: finalize_def overhanging_cds_def scenario_def finalize_utr_def cdna_length_def
      combined_cds_length_def combined_utr_length_def intervals_length_def codon_flags_def
      make_segments_def segment_key_def cds_of_segments_def selected_cds_def
      selected_cds_item_def fix_first_exon_def fix_last_exon_def
      selected_internal_orf_check_def check_bounds_def Let_def and_then_def finalize_orfs_def)

text \<open>
  Two more inputs on which the lengths are accepted as they come, the inference and its
  check being skipped: a CDS given with a part of the UTR only, and a CDS longer than
  the cDNA.
\<close>

lemma finalize_partial_utr:
  "map_sum id finalized (finalize partial_utr) = Inr True \<and>
   map_sum id combined_cds (finalize partial_utr) = Inr [(10, 20)] \<and>
   map_sum id cdna_length (finalize partial_utr) = Inr 100 \<and>
   map_sum id combined_cds_length (finalize partial_utr) = Inr 11 \<and>
   map_sum id combined_utr_length (finalize partial_utr) = Inr 5"
  by (simp add: finalize_def partial_utr_def scenario_def finalize_utr_def cdna_length_def
      combined_cds_length_def
      combined_utr_length_def intervals_length_def codon_flags_def make_segments_def
      selected_internal_orf_check_def check_bounds_def Let_def and_then_def finalize_orfs_def)

lemma finalize_long_cds:
  "map_sum id finalized (finalize long_cds) = Inr True \<and>
   map_sum id cdna_length (finalize long_cds) = Inr 100 \<and>
   map_sum id combined_cds_length (finalize long_cds) = Inr 200 \<and>
   map_sum id combined_utr_length (finalize long_cds) = Inr 0"
  by (simp add: finalize_def long_cds_def scenario_def finalize_utr_def cdna_length_def
      combined_cds_length_def
      combined_utr_length_def intervals_length_def codon_flags_def make_segments_def
      selected_internal_orf_check_def check_bounds_def Let_def and_then_def finalize_orfs_def)

subsection \<open>Bounds of a locus\<close>

lemma check_bounds_keeps:
  "check_bounds s = Inr s1 \<Longrightarrow> tid s1 = tid s \<and> t_start s1 = t_start s \<and> t_end s1 = t_end s"
  by (auto simp: check_bounds_def fix_first_exon_def fix_last_exon_def
      split: if_splits sum.splits)

lemma finalize_keeps:
  assumes "finalize t = Inr t'"
  shows "tid t' = tid t \<and> t_start t' = t_start t \<and> t_end t' = t_end t"
proof (cases "finalized t")
  case True
  with assms show ?thesis by (simp add: finalize_def)
next
  case False
  with assms obtain t1 ins t2 t6 t7 where
    s1: "finalize_utr (t\<lparr>exons := sort (exons t)\<rparr>) = Inr t1"
    and s2: "codon_flags (t1\<lparr>internal_orfs := [], combined_cds := sort (combined_cds t1),
                              combined_utr := sort (combined_utr t1)\<rparr>) = Inr t2"
    and s3: "selected_internal_orf_check (finalize_orfs ins t2) = Inr t6"
    and s4: "check_bounds (if combined_cds t6 \<noteq> [] then t6\<lparr>feature := ''mRNA''\<rparr> else t6) = Inr t7"
    and s5: "t' = t7\<lparr>finalized := True\<rparr>"
    by (auto simp: finalize_def split: if_splits dest!: and_then_Inr)
  have "tid t1 = tid t \<and> t_start t1 = t_start t \<and> t_end t1 = t_end t"
    using s1 by (auto simp: finalize_utr_def Let_def split: if_splits sum.splits)
  moreover have "tid t2 = tid t1 \<and> t_start t2 = t_start t1 \<and> t_end t2 = t_end t1"
    using s2 by (auto simp: codon_flags_def Let_def split: if_splits option.splits strand.splits)
  moreover have "tid t6 = tid t2 \<and> t_start t6 = t_start t2 \<and> t_end t6 = t_end t2"
    using s3 by (auto simp: selected_internal_orf_check_def finalize_orfs_def Let_def
        split: if_splits option.splits)
  moreover have "tid t7 = tid t6 \<and> t_start t7 = t_start t6 \<and> t_end t7 = t_end t6"
    using check_bounds_keeps [OF s4] by (auto split: if_splits)
  ultimately show ?thesis using s5 by simp
qed

lemma add_selected_keeps:
  "add_selected l t = (l', r) \<Longrightarrow>
   transcripts l' = transcripts l \<and> l_start l' = l_start l \<and> l_end l' = l_end l"
  by (auto simp: add_selected_def split: sum.splits)

lemma add_derived_keeps:
  "add_derived l t = (l', r) \<Longrightarrow>
   transcripts l' = transcripts l \<and> l_start l' = l_start l \<and> l_end l' = l_end l"
  by (auto simp: add_derived_def Let_def split: if_splits sum.splits dest: add_selected_keeps)

lemma bmin_Fin [simp]: "bmin (Fin a) (Fin b) = Fin (min a b)"
  by (auto simp: bmin_def)

lemma bmax_Fin [simp]: "bmax (Fin a) (Fin b) = Fin (max a b)"
  by (auto simp: bmax_def)

lemma bmin_PosInf [simp]: "bmin PosInf (Fin b) = Fin b"
  by (simp add: bmin_def)

lemma bmax_NegInf [simp]: "bmax NegInf (Fin b) = Fin b"
  by (simp add: bmax_def)

lemma add_bounds_inv:
  assumes "locus_inv l" "tid t \<notin> fst ` set (transcripts l)"
    "t_start t \<le> maxsize" "- maxsize \<le> t_end t"
  shows "locus_inv (add_bounds (l\<lparr>l_monoexonic := m\<rparr>) t)"
proof (cases "transcripts l = []")
  case True
  with assms show ?thesis
    by (auto simp: locus_inv_def add_bounds_def dict_set_def starts_def ends_def Let_def)
next
  case False
  then have ne: "set (starts l) \<noteq> {}" "set (ends l) \<noteq> {}"
    by (simp_all add: starts_def ends_def)
  have "Min (insert (t_start t) (set (starts l))) = min (Min (set (starts l))) (t_start t)"
    using ne by (simp add: min.commute)
  moreover have "Max (insert (t_end t) (set (ends l))) = max (Max (set (ends l))) (t_end t)"
    using ne by (simp add: max.commute)
  ultimately show ?thesis
    using assms False
    by (auto simp: locus_inv_def add_bounds_def dict_set_def starts_def ends_def Let_def)
qed

lemma add_inv:
  assumes "locus_inv l" "add_transcript_to_locus l tr c = (l', None)"
    "tid tr \<notin> fst ` set (transcripts l)" "t_start tr \<le> maxsize" "- maxsize \<le> t_end tr"
  shows "locus_inv l'"
proof -
  from assms(2) obtain t where f: "finalize tr = Inr t"
    and d: "add_derived (add_bounds (l\<lparr>l_monoexonic := l_monoexonic l \<and> monoexonic t\<rparr>) t) t
            = (l', None)"
    by (auto simp: add_transcript_to_locus_def Let_def split: sum.splits if_splits)
  note k = finalize_keeps [OF f]
  have "locus_inv (add_bounds (l\<lparr>l_monoexonic := l_monoexonic l \<and> monoexonic t\<rparr>) t)"
    using add_bounds_inv [of l t] assms(1,3,4,5) k by simp
  with add_derived_keeps [OF d] show ?thesis
    by (simp add: locus_inv_def starts_def ends_def)
qed

lemma fold_max_Max: "fold max ys (x::int) = Max (set (x # ys))"
  using Max.set_eq_fold [of x ys] by simp

lemma fold_min_Min: "fold min ys (x::int) = Min (set (x # ys))"
  using Min.set_eq_fold [of x ys] by simp

lemma remove_bounds_result:
  "remove_bounds l others = Inr l1 \<Longrightarrow>
   others \<noteq> [] \<and> l_start l1 = Fin (Min (set (map t_start others))) \<and>
   l_end l1 = Fin (Max (set (map t_end others))) \<and> transcripts l1 = transcripts l"
  by (cases others)
     (auto simp: remove_bounds_def py_max_def py_min_def and_then_def fold_max_Max fold_min_Min)

lemma remove_cds_introns_keeps:
  "remove_cds_introns l g os = Inr l1 \<Longrightarrow>
   l_start l1 = l_start l \<and> l_end l1 = l_end l \<and> transcripts l1 = transcripts l"
  by (auto simp: remove_cds_introns_def dest!: and_then_Inr)

lemma remove_selected_cds_introns_keeps:
  "remove_selected_cds_introns l g os = Inr l1 \<Longrightarrow>
   l_start l1 = l_start l \<and> l_end l1 = l_end l \<and> transcripts l1 = transcripts l"
  by (auto simp: remove_selected_cds_introns_def dest!: and_then_Inr)

lemma remove_inv:
  assumes "locus_inv l" "remove_transcript_from_locus l k = (l', None)"
  shows "locus_inv l'"
proof -
  from assms(2) obtain gone where g: "map_of (transcripts l) k = Some gone"
    by (auto simp: remove_transcript_from_locus_def split: option.splits)
  show ?thesis
  proof (cases "length (transcripts l) = 1")
    case True
    with assms(2) g show ?thesis
      by (auto simp: remove_transcript_from_locus_def locus_inv_def)
  next
    case False
    let ?keep = "filter (\<lambda>kv. fst kv \<noteq> k) (transcripts l)"
    from assms(2) g False obtain l1 l3 l4 where
      b: "remove_bounds l (map snd ?keep) = Inr l1"
      and c: "remove_cds_introns (remove_exons_introns l1 gone (map snd ?keep)) gone (map snd ?keep)
              = Inr l3"
      and d: "remove_selected_cds_introns l3 gone (map snd ?keep) = Inr l4"
      and e: "l' = l4\<lparr>l_splices := l_splices l4 -
                        (splices gone - (\<Union>x\<in>set (map snd ?keep). splices x)),
                      transcripts := ?keep\<rparr>"
      by (auto simp: remove_transcript_from_locus_def Let_def split: sum.splits)
    note rb = remove_bounds_result [OF b]
    note rc = remove_cds_introns_keeps [OF c]
    note rd = remove_selected_cds_introns_keeps [OF d]
    have "distinct (map fst ?keep)"
      using assms(1) by (simp add: locus_inv_def distinct_map_filter)
    moreover have "?keep \<noteq> []" using rb by auto
    moreover have "l_start l' = Fin (Min (set (map t_start (map snd ?keep))))"
      "l_end l' = Fin (Max (set (map t_end (map snd ?keep))))"
      using rb rc rd e by (simp_all add: remove_exons_introns_def)
    ultimately show ?thesis
      using e by (simp add: locus_inv_def starts_def ends_def comp_def)
  qed
qed

lemma new_locus_inv: "locus_inv new_locus"
  by (simp add: locus_inv_def new_locus_def)

lemma run_ops_inv:
  "locus_inv l \<Longrightarrow> ops_ok l xs \<Longrightarrow> run_ops l xs = Inr l' \<Longrightarrow> locus_inv l'"
proof (induction xs arbitrary: l)
  case Nil
  then show ?case by simp
next
  case (Cons x xs)
  show ?case
  proof (cases x)
    case (Add t c)
    with Cons.prems obtain l1 where
      a: "add_transcript_to_locus l t c = (l1, None)" and r: "run_ops l1 xs = Inr l'"
      by (auto simp: apply_op_def split: prod.splits option.splits)
    with Cons.prems Add have "locus_inv l1" "ops_ok l1 xs"
      by (auto intro: add_inv)
    with Cons.IH r show ?thesis by blast
  next
    case (Remove k)
    with Cons.prems obtain l1 where
      a: "remove_transcript_from_locus l k = (l1, None)" and r: "run_ops l1 xs = Inr l'"
      by (auto simp: apply_op_def split: prod.splits option.splits)
    with Cons.prems Remove have "locus_inv l1" "ops_ok l1 xs"
      by (auto intro: remove_inv)
    with Cons.IH r show ?thesis by blast
  qed
qed

text \<open>
  C8, amended.  After a sequence of additions and removals that all succeed, in which
  every transcript added has an id new to the locus and coordinates within
  \<open>sys.maxsize\<close>, a locus that holds a transcript starts at the least start and ends at
  the greatest end of its transcripts.
\<close>

theorem locus_bounds:
  assumes "ops_ok new_locus xs" "run_ops new_locus xs = Inr l" "transcripts l \<noteq> []"
  shows "l_start l = Fin (Min (set (starts l))) \<and> l_end l = Fin (Max (set (ends l)))"
  using run_ops_inv [OF new_locus_inv assms(1,2)] assms(3) by (simp add: locus_inv_def)


lemmas locus_eval =
  apply_op_def add_transcript_to_locus_def add_derived_def add_selected_def add_bounds_def
  remove_transcript_from_locus_def remove_bounds_def remove_exons_introns_def
  remove_cds_introns_def remove_selected_cds_introns_def py_max_def py_min_def
  combined_cds_introns_def selected_cds_introns_def selected_cds_def and_then_def
  in_locus_def overlap_positive_def sorted_pair_def bmin_def bmax_def dict_set_def
  monoexonic_def finalize_def new_locus_def Let_def
  tr_a_def tr_a_again_def tr_c_def finalized_example_def starts_def ends_def

text \<open>
  C8 as stated fails: adding a transcript whose id the locus already holds replaces
  the stored transcript, while the bounds still cover the one replaced.  The locus
  starts at 1 and its only transcript at 5.
\<close>

theorem readd_same_id:
  "map_sum id l_start (run_ops new_locus [Add tr_a True, Add tr_a_again True]) = Inr (Fin 1) \<and>
   map_sum id starts (run_ops new_locus [Add tr_a True, Add tr_a_again True]) = Inr [5]"
  by (simp add: locus_eval maxsize_def)

theorem locus_bounds_witness:
  "ops_ok new_locus [Add tr_a True, Add tr_c True, Remove ''a''] \<and>
   run_ops new_locus [Add tr_a True, Add tr_c True, Remove ''a'']
     = Inr (projr (run_ops new_locus [Add tr_a True, Add tr_c True, Remove ''a''])) \<and>
   starts (projr (run_ops new_locus [Add tr_a True, Add tr_c True, Remove ''a''])) = [5] \<and>
   l_start (projr (run_ops new_locus [Add tr_a True, Add tr_c True, Remove ''a''])) = Fin 5 \<and>
   l_end (projr (run_ops new_locus [Add tr_a True, Add tr_c True, Remove ''a''])) = Fin 20"
proof -
  let ?xs = "[Add tr_a True, Add tr_c True, Remove ''a'']"
  have ok: "ops_ok new_locus ?xs"
    by (simp add: locus_eval maxsize_def)
  have run: "run_ops new_locus ?xs = Inr (projr (run_ops new_locus ?xs))"
    by (simp add: locus_eval maxsize_def)
  have ne: "transcripts (projr (run_ops new_locus ?xs)) \<noteq> []"
    by (simp add: locus_eval maxsize_def)
  have st: "starts (projr (run_ops new_locus ?xs)) = [5]"
    and en: "ends (projr (run_ops new_locus ?xs)) = [20]"
    by (simp_all add: locus_eval maxsize_def)
  from locus_bounds [OF ok run ne] ok run st en show ?thesis by simp
qed

subsection \<open>Transcript.load\_orfs\<close>

lemmas fin_eval = finalize_def finalize_utr_def cdna_length_def combined_cds_length_def
      combined_utr_length_def intervals_length_def codon_flags_def make_segments_def
      selected_internal_orf_check_def check_bounds_def Let_def and_then_def finalize_orfs_def

lemmas orf_eval = load_orfs_def load_retained_def retained_orfs_def strand_filter_def
  sorted_desc_def project_orf_def combine_orfs_def segments_of_def utr_pos_def positions_def
  community_span_def py_min_def py_max_def singletons_def monoexonic_def
  orf_short_def orf_long_def mono_def scenario_def strict_conf_def

lemma sum_insort_key:
  "sum_list (map g (insort_key f x xs)) = (g x :: int) + sum_list (map g xs)"
  by (induction xs) auto

lemma sum_sort_key: "sum_list (map g (sort_key f xs)) = (sum_list (map g xs) :: int)"
  by (induction xs) (auto simp: sum_insort_key)

lemma segments_of_sort_key:
  "intervals_length (segments_of kind (sort_key f segs)) = intervals_length (segments_of kind segs)"
  by (simp add: segments_of_def intervals_length_def filter_sort sum_sort_key
      flip: map_map [unfolded comp_def])

lemma coding_balance_append:
  "coding_balance (xs @ ys) = coding_balance xs + coding_balance ys"
  by (simp add: coding_balance_def segments_of_def intervals_length_def)

lemma project_minus_balance:
  "coding_balance (project_minus x cs ce es) = intervals_length es"
proof (induction es arbitrary: cs ce)
  case Nil
  then show ?case by (simp add: coding_balance_def segments_of_def intervals_length_def)
next
  case (Cons e es)
  have tl: "intervals_length (e # es) = (snd e - fst e + 1) + intervals_length es"
    by (simp add: intervals_length_def)
  show ?case
    unfolding project_minus.simps Let_def coding_balance_append Cons.IH tl
    by (simp add: coding_balance_def segments_of_def intervals_length_def)
qed

lemma project_plus_balance:
  assumes "thickStart x \<le> thickEnd x + 1" "\<forall>e\<in>set es. fst e \<le> snd e + 1"
  shows "coding_balance (project_plus x ce ce es) = intervals_length es"
  using assms(2)
proof (induction es arbitrary: ce)
  case Nil
  then show ?case by (simp add: coding_balance_def segments_of_def intervals_length_def)
next
  case (Cons e es)
  have tl: "intervals_length (e # es) = (snd e - fst e + 1) + intervals_length es"
    by (simp add: intervals_length_def)
  have ih: "coding_balance (project_plus x (ce + (snd e - fst e + 1)) (ce + (snd e - fst e + 1)) es)
            = intervals_length es"
    using Cons by simp
  have e: "fst e \<le> snd e + 1" using Cons.prems by simp
  show ?case
    unfolding project_plus.simps Let_def coding_balance_append ih tl
    using assms(1) e
    by (simp add: coding_balance_def segments_of_def intervals_length_def) linarith
qed

lemma intervals_length_rev: "intervals_length (rev xs) = intervals_length xs"
  by (simp add: intervals_length_def rev_map [symmetric])

lemma coding_balance_sort_key: "coding_balance (sort_key f segs) = coding_balance segs"
  by (simp add: coding_balance_def segments_of_sort_key)

lemma project_orf_balanced:
  assumes "thickStart x \<le> thickEnd x + 1" "\<forall>e\<in>set (exons t). fst e \<le> snd e + 1"
  shows "balanced (cdna_length t) (project_orf t x)"
proof (cases "strand t")
  case None
  then show ?thesis by (simp add: balanced_def project_orf_def segments_of_def)
next
  case (Some d)
  show ?thesis
  proof (cases d)
    case Plus
    have "coding_balance (project_plus x 0 0 (sort (exons t))) = intervals_length (sort (exons t))"
      using assms by (intro project_plus_balance) simp_all
    with Some Plus show ?thesis
      by (simp add: balanced_def project_orf_def coding_balance_sort_key cdna_length_def
          intervals_length_sort)
  next
    case Minus
    with Some show ?thesis
      by (simp add: balanced_def project_orf_def coding_balance_sort_key cdna_length_def
          intervals_length_sort intervals_length_rev project_minus_balance)
  qed
qed

lemma load_orf_loop_keeps:
  "exons (load_orf_loop p t xs) = exons t \<and>
   combined_cds (load_orf_loop p t xs) = combined_cds t \<and>
   combined_utr (load_orf_loop p t xs) = combined_utr t \<and>
   finalized (load_orf_loop p t xs) = finalized t"
  by (induction p t xs rule: load_orf_loop.induct) (simp_all add: Let_def cdna_length_def)

lemma load_orf_loop_balanced:
  assumes "\<forall>x\<in>set xs. thickStart x \<le> thickEnd x + 1" "\<forall>e\<in>set (exons t). fst e \<le> snd e + 1"
    "\<forall>s\<in>set (internal_orfs t). balanced (cdna_length t) s"
  shows "\<forall>s\<in>set (internal_orfs (load_orf_loop p t xs)). balanced (cdna_length t) s"
  using assms
proof (induction xs arbitrary: p t)
  case Nil
  then show ?case by simp
next
  case (Cons x rest)
  define t1 where "t1 = (if p
             then t\<lparr>has_start_codon := o_has_start_codon x, has_stop_codon := o_has_stop_codon x\<rparr>
             else t)"
  define t3 where "t3 = (if strand t1 = None then t1\<lparr>strand := o_strand x\<rparr> else t1)
                          \<lparr>loaded_bed12 := loaded_bed12 t1 @ [x]\<rparr>"
  define t4 where "t4 = t3\<lparr>internal_orfs := internal_orfs t3 @ [project_orf t3 x]\<rparr>"
  have ex1: "exons t1 = exons t" "internal_orfs t1 = internal_orfs t"
    by (simp_all add: t1_def)
  have ex3: "exons t3 = exons t" "internal_orfs t3 = internal_orfs t"
    by (simp_all add: t3_def ex1)
  have ex4: "exons t4 = exons t" "internal_orfs t4 = internal_orfs t @ [project_orf t3 x]"
    by (simp_all add: t4_def ex3)
  have cd: "cdna_length t1 = cdna_length t" "cdna_length t3 = cdna_length t"
    "cdna_length t4 = cdna_length t"
    by (simp_all add: cdna_length_def ex1 ex3 ex4)
  have b: "balanced (cdna_length t) (project_orf t3 x)"
    using project_orf_balanced [of x t3] Cons.prems ex3 cd by simp
  have step: "load_orf_loop p t (x # rest) =
      (if \<not> (thickStart x \<ge> 1 \<and> thickEnd x \<le> cdna_length t1) \<or> \<not> (o_len x = cdna_length t1)
       then load_orf_loop False t1 rest else load_orf_loop False t4 rest)"
    by (simp add: t1_def t3_def t4_def Let_def)
  have r1: "\<forall>s\<in>set (internal_orfs (load_orf_loop False t1 rest)). balanced (cdna_length t) s"
    using Cons.IH [of t1 False] Cons.prems ex1 cd by simp
  have r4: "\<forall>s\<in>set (internal_orfs (load_orf_loop False t4 rest)). balanced (cdna_length t) s"
    using Cons.IH [of t4 False] Cons.prems ex4 cd b by simp
  show ?case
  proof (cases "\<not> (thickStart x \<ge> 1 \<and> thickEnd x \<le> cdna_length t1) \<or> \<not> (o_len x = cdna_length t1)")
    case True
    then have "load_orf_loop p t (x # rest) = load_orf_loop False t1 rest"
      by (simp only: step if_True)
    then show ?thesis using r1 by (simp only:)
  next
    case False
    then have "load_orf_loop p t (x # rest) = load_orf_loop False t4 rest"
      by (simp only: step if_False)
    then show ?thesis using r4 by (simp only:)
  qed
qed

lemma finalize_stages:
  assumes "finalize t = Inr t'" "\<not> finalized t"
  obtains t1 ins t2 t6 t7 where
    "finalize_utr (t\<lparr>exons := sort (exons t)\<rparr>) = Inr t1"
    "codon_flags (t1\<lparr>internal_orfs := [], combined_cds := sort (combined_cds t1),
                      combined_utr := sort (combined_utr t1)\<rparr>) = Inr t2"
    "selected_internal_orf_check (finalize_orfs ins t2) = Inr t6"
    "check_bounds (if combined_cds t6 \<noteq> [] then t6\<lparr>feature := ''mRNA''\<rparr> else t6) = Inr t7"
    "t' = t7\<lparr>finalized := True\<rparr>"
  using assms by (auto simp: finalize_def split: if_splits dest!: and_then_Inr)

lemma check_bounds_cds:
  "check_bounds s = Inr s1 \<Longrightarrow> combined_cds s1 = combined_cds s"
  by (auto simp: check_bounds_def fix_first_exon_def fix_last_exon_def
      split: if_splits sum.splits)

lemma finalize_no_cds:
  assumes "finalize t = Inr t'" "\<not> finalized t" "combined_cds t = []"
  shows "combined_cds t' = []"
proof -
  from assms(1,2) obtain t1 ins t2 t6 t7 where
    s1: "finalize_utr (t\<lparr>exons := sort (exons t)\<rparr>) = Inr t1"
    and s2: "codon_flags (t1\<lparr>internal_orfs := [], combined_cds := sort (combined_cds t1),
                              combined_utr := sort (combined_utr t1)\<rparr>) = Inr t2"
    and s3: "selected_internal_orf_check (finalize_orfs ins t2) = Inr t6"
    and s4: "check_bounds (if combined_cds t6 \<noteq> [] then t6\<lparr>feature := ''mRNA''\<rparr> else t6) = Inr t7"
    and s5: "t' = t7\<lparr>finalized := True\<rparr>"
    by (rule finalize_stages)
  have "finalize_utr (t\<lparr>exons := sort (exons t)\<rparr>) = Inr (t\<lparr>exons := sort (exons t)\<rparr>)"
    using assms(3) by (simp add: finalize_utr_def)
  with s1 have "t1 = t\<lparr>exons := sort (exons t)\<rparr>" by simp
  then have "combined_cds t1 = []"
    using assms(3) by simp
  then have "combined_cds t2 = []"
    using codon_flags_keeps [OF s2] by simp
  then have "combined_cds t6 = []"
    using selected_internal_orf_check_keeps [OF s3] finalize_orfs_keeps [of ins t2] by simp
  then show ?thesis
    using check_bounds_cds [OF s4] s5 by simp
qed

lemma combine_orfs_keeps:
  "combine_orfs fc t = Inr t' \<Longrightarrow>
   internal_orfs t' = internal_orfs t \<and> exons t' = exons t \<and> finalized t' = finalized t"
  by (auto simp: combine_orfs_def Let_def split: if_splits dest!: and_then_Inr)

lemma combine_orfs_multi:
  "combine_orfs fc t = Inr t' \<Longrightarrow> 1 < length (internal_orfs t) \<Longrightarrow>
   cdna_length t' = combined_cds_length t' + combined_utr_length t'"
  by (auto simp: combine_orfs_def Let_def split: if_splits dest!: and_then_Inr)

lemma combine_orfs_single:
  assumes "combine_orfs fc t = Inr t'" "internal_orfs t = [s]"
  shows "combined_cds t' = sort (segments_of ''CDS'' s) \<and>
         combined_utr t' = sort (segments_of ''UTR'' s)"
  using assms by (auto simp: combine_orfs_def)

lemma combine_orfs_assert:
  "1 < length (internal_orfs t) \<Longrightarrow> combine_orfs fc t = Inl AssertionError \<or>
     combine_orfs fc t = Inl TypeError \<or>
     (\<exists>t'. combine_orfs fc t = Inr t' \<and>
           cdna_length t' = combined_cds_length t' + combined_utr_length t') \<or>
     (\<exists>e. combine_orfs fc t = Inl e \<and>
          community_spans (fc (concat (map (segments_of ''CDS'') (internal_orfs t)))) = Inl e)"
  by (auto simp: combine_orfs_def Let_def and_then_def split: sum.splits)

lemma set_sorted_desc: "set (sorted_desc f xs) = set xs"
  by (simp add: sorted_desc_def)

lemma set_strand_filter: "set (strand_filter t xs) \<subseteq> set xs"
  by (auto simp: strand_filter_def)

lemma load_retained_lengths:
  assumes "load_retained fc t cands = Inr t'" "combined_cds t' \<noteq> []"
    and "1 < length (internal_orfs t') \<or>
         ((\<forall>x\<in>set cands. thickStart x \<le> thickEnd x + 1) \<and> (\<forall>e\<in>set (exons t). fst e \<le> snd e + 1))"
  shows "cdna_length t' = combined_cds_length t' + combined_utr_length t'"
proof -
  define t1 where "t1 = t\<lparr>combined_utr := [], combined_cds := [], internal_orfs := [],
                          finalized := False, loaded_bed12 := []\<rparr>"
  define xs where "xs = sorted_desc cds_len (strand_filter t1 cands)"
  define t2 where "t2 = load_orf_loop True t1 xs"
  from assms(1) obtain t3 where c: "combine_orfs fc t2 = Inr t3"
    and r: "(if internal_orfs t3 = [] then finalize t3
             else Inr (t3\<lparr>feature := ''mRNA'', finalized := True\<rparr>)) = Inr t'"
    by (auto simp: load_retained_def Let_def t1_def xs_def t2_def dest!: and_then_Inr)
  note k2 = load_orf_loop_keeps [of True t1 xs, folded t2_def]
  note k3 = combine_orfs_keeps [OF c]
  have nf: "\<not> finalized t3" "exons t3 = exons t"
    using k2 k3 by (simp_all add: t1_def)
  show ?thesis
  proof (cases "internal_orfs t3 = []")
    case True
    with k3 have "internal_orfs t2 = []" by simp
    then have "combine_orfs fc t2 = Inr t2" by (simp add: combine_orfs_def)
    with c have "t3 = t2" by simp
    moreover have "combined_cds t1 = []" by (simp add: t1_def)
    ultimately have "combined_cds t3 = []"
      using k2 by simp
    with True r nf have "combined_cds t' = []"
      by (auto intro: finalize_no_cds)
    with assms(2) show ?thesis by simp
  next
    case False
    with r have t': "t' = t3\<lparr>feature := ''mRNA'', finalized := True\<rparr>" by simp
    then have same: "cdna_length t' = cdna_length t3" "combined_cds_length t' = combined_cds_length t3"
      "combined_utr_length t' = combined_utr_length t3" "internal_orfs t' = internal_orfs t2"
      "combined_cds t' = combined_cds t3"
      using k3 by (simp_all add: cdna_length_def combined_cds_length_def combined_utr_length_def)
    show ?thesis
    proof (cases "1 < length (internal_orfs t2)")
      case True
      with combine_orfs_multi [OF c] same show ?thesis by simp
    next
      case multi: False
      with False k3 obtain s where s: "internal_orfs t2 = [s]"
        by (cases "internal_orfs t2") auto
      with assms(3) same have wf: "\<forall>x\<in>set xs. thickStart x \<le> thickEnd x + 1"
        "\<forall>e\<in>set (exons t1). fst e \<le> snd e + 1"
        using set_strand_filter [of t1 cands] by (auto simp: xs_def set_sorted_desc t1_def)
      have "\<forall>s\<in>set (internal_orfs t2). balanced (cdna_length t1) s"
        unfolding t2_def by (rule load_orf_loop_balanced [OF wf]) (simp add: t1_def)
      with s have b: "balanced (cdna_length t) s"
        by (simp add: cdna_length_def t1_def)
      note cs = combine_orfs_single [OF c s]
      from cs same assms(2) have "segments_of ''CDS'' s \<noteq> []" by auto
      with b have "coding_balance s = cdna_length t" by (simp add: balanced_def)
      then show ?thesis
        using cs t' nf
        by (simp add: coding_balance_def cdna_length_def combined_cds_length_def
            combined_utr_length_def intervals_length_sort)
    qed
  qed
qed

lemma fix_first_exon_loose:
  assumes "fix_first_exon s = Inr s1" "\<forall>e\<in>set (exons s). loose e"
  shows "(\<forall>e\<in>set (exons s1). loose e) \<and> (exons s1 = [] \<longleftrightarrow> exons s = [])"
proof -
  have "\<forall>e\<in>set ((exons s)[0 := (t_start s, fst (hd (exons s)))]). loose e"
    if "t_start s < fst (hd (exons s))"
    using that assms(2) set_update_subset_insert [of "exons s" 0 "(t_start s, fst (hd (exons s)))"]
    by (auto simp: loose_def)
  with assms show ?thesis
    by (auto simp: fix_first_exon_def split: if_splits sum.splits)
qed

lemma fix_last_exon_loose:
  assumes "fix_last_exon s = Inr s1" "\<forall>e\<in>set (exons s). loose e" "exons s \<noteq> []"
  shows "\<forall>e\<in>set (exons s1). loose e"
proof -
  have "loose (last (exons s))" using assms(2,3) by simp
  then have "\<forall>e\<in>set ((exons s)[length (exons s) - 1 := (fst (last (exons s)), t_end s)]). loose e"
    if "snd (last (exons s)) < t_end s"
    using that assms(2)
      set_update_subset_insert [of "exons s" "length (exons s) - 1" "(fst (last (exons s)), t_end s)"]
    by (auto simp: loose_def)
  with assms show ?thesis
    by (auto simp: fix_last_exon_def split: if_splits sum.splits)
qed

lemma check_bounds_loose:
  assumes "check_bounds s = Inr s1" "\<forall>e\<in>set (exons s). loose e"
  shows "\<forall>e\<in>set (exons s1). loose e"
proof (cases "exons s \<noteq> [] \<and> (fst (hd (exons s)) \<noteq> t_start s \<or> snd (last (exons s)) \<noteq> t_end s)")
  case True
  with assms(1) obtain u where u: "fix_first_exon s = Inr u" and v: "fix_last_exon u = Inr s1"
    by (auto simp: check_bounds_def split: sum.splits if_splits)
  from fix_first_exon_loose [OF u assms(2)] True fix_last_exon_loose [OF v]
  show ?thesis by blast
next
  case False
  with assms show ?thesis by (auto simp: check_bounds_def split: if_splits)
qed

lemma finalize_loose:
  assumes "finalize t = Inr t'" "\<forall>e\<in>set (exons t). loose e"
  shows "\<forall>e\<in>set (exons t'). loose e"
proof (cases "finalized t")
  case True
  with assms show ?thesis by (simp add: finalize_def)
next
  case False
  from assms(1) False obtain t1 ins t2 t6 t7 where
    s1: "finalize_utr (t\<lparr>exons := sort (exons t)\<rparr>) = Inr t1"
    and s2: "codon_flags (t1\<lparr>internal_orfs := [], combined_cds := sort (combined_cds t1),
                              combined_utr := sort (combined_utr t1)\<rparr>) = Inr t2"
    and s3: "selected_internal_orf_check (finalize_orfs ins t2) = Inr t6"
    and s4: "check_bounds (if combined_cds t6 \<noteq> [] then t6\<lparr>feature := ''mRNA''\<rparr> else t6) = Inr t7"
    and s5: "t' = t7\<lparr>finalized := True\<rparr>"
    by (rule finalize_stages)
  have "exons t6 = sort (exons t)"
    using finalize_utr_keeps [OF s1] codon_flags_keeps [OF s2]
      selected_internal_orf_check_keeps [OF s3] finalize_orfs_keeps [of ins t2] by simp
  then have "\<forall>e\<in>set (exons (if combined_cds t6 \<noteq> [] then t6\<lparr>feature := ''mRNA''\<rparr> else t6)). loose e"
    using assms(2) by simp
  from check_bounds_loose [OF s4 this] s5 show ?thesis by simp
qed

lemma representatives_members:
  "representatives cs = Inr new \<Longrightarrow>
   length new = length cs \<and> set new \<subseteq> (\<Union>c\<in>set cs. set c)"
proof (induction cs arbitrary: new)
  case Nil
  then show ?case by simp
next
  case (Cons c cs)
  from Cons.prems obtain best rest others where
    b: "sorted_desc cds_len c = best # rest" and r: "representatives cs = Inr others"
    and n: "new = best # others"
    by (auto split: list.splits dest!: and_then_Inr)
  have "best \<in> set c"
    using b set_sorted_desc [of cds_len c] by (metis list.set_intros(1))
  with Cons.IH [OF r] n show ?case by auto
qed

lemma set_retained_orfs: "set (retained_orfs m new) \<subseteq> set new"
  by (auto simp: retained_orfs_def split: list.splits)

text \<open>
  Where \<open>load_orfs\<close> establishes the equality of the lengths: with several ORFs loaded
  (the assertion guards it), and with one ORF when the candidates have
  \<open>thickStart \<le> thickEnd\<close> and the exons start \<open>\<le>\<close> end.
\<close>

lemma load_orfs_lengths:
  assumes "load_orfs foc fc tr orfs = Inr t'" "foc orfs \<noteq> []" "combined_cds t' \<noteq> []"
    and "1 < length (internal_orfs t') \<or>
         ((\<forall>c\<in>set (foc orfs). \<forall>x\<in>set c. thickStart x \<le> thickEnd x) \<and>
          (\<forall>e\<in>set (exons tr). fst e \<le> snd e))"
  shows "cdna_length t' = combined_cds_length t' + combined_utr_length t'"
proof -
  from assms(1) obtain t new where f: "finalize tr = Inr t"
    and n: "representatives (foc orfs) = Inr new"
    and l: "(let minimal = (case json_dict t of
                              Some conf \<Rightarrow> minimal_secondary_orf_length conf | None \<Rightarrow> 0);
                 candidates = retained_orfs minimal new
             in if candidates = [] then Inr t else load_retained fc t candidates) = Inr t'"
    by (auto simp: load_orfs_def dest!: and_then_Inr)
  define m where "m = (case json_dict t of
                         Some conf \<Rightarrow> minimal_secondary_orf_length conf | None \<Rightarrow> 0)"
  note rm = representatives_members [OF n]
  from rm assms(2) have "new \<noteq> []" by auto
  then have ne: "retained_orfs m new \<noteq> []"
    by (cases new) (simp_all add: retained_orfs_def)
  with l have lr: "load_retained fc t (retained_orfs m new) = Inr t'"
    by (simp add: m_def Let_def)
  have "(\<forall>x\<in>set (retained_orfs m new). thickStart x \<le> thickEnd x + 1) \<and>
        (\<forall>e\<in>set (exons t). fst e \<le> snd e + 1)"
    if wf: "(\<forall>c\<in>set (foc orfs). \<forall>x\<in>set c. thickStart x \<le> thickEnd x) \<and>
            (\<forall>e\<in>set (exons tr). fst e \<le> snd e)"
  proof
    show "\<forall>x\<in>set (retained_orfs m new). thickStart x \<le> thickEnd x + 1"
      using wf rm set_retained_orfs [of m new] by fastforce
    have "\<forall>e\<in>set (exons tr). loose e" using wf by (auto simp: loose_def)
    from finalize_loose [OF f this] show "\<forall>e\<in>set (exons t). fst e \<le> snd e + 1"
      by (simp add: loose_def)
  qed
  with assms(4) load_retained_lengths [OF lr assms(3)] show ?thesis by blast
qed

text \<open>
  Two ORFs loaded on a monoexonic transcript: the branch for several ORFs computes the
  UTR from the bases of the exon that no CDS covers, and its assertion holds.
\<close>

lemma load_two_orfs_eval:
  "load_orfs singletons singletons mono [orf_short, orf_long]
     = Inr (projr (load_orfs singletons singletons mono [orf_short, orf_long]))"
  "length (internal_orfs (projr (load_orfs singletons singletons mono [orf_short, orf_long]))) = 2"
  "combined_cds (projr (load_orfs singletons singletons mono [orf_short, orf_long]))
     = [(102, 104), (108, 116)]"
  "combined_utr (projr (load_orfs singletons singletons mono [orf_short, orf_long]))
     = [(101, 101), (105, 107), (117, 120)]"
  "cdna_length (projr (load_orfs singletons singletons mono [orf_short, orf_long])) = 20"
  by (simp_all add: orf_eval fin_eval)

lemma sorted_desc_first:
  assumes "sorted_desc f xs = b # rest"
  shows "b \<in> set xs \<and> (\<forall>x\<in>set xs. f x \<le> f b)"
proof -
  have eq: "sort_key f (rev xs) = rev rest @ [b]"
    using assms by (simp add: sorted_desc_def rev_swap)
  have "sorted (map f (sort_key f (rev xs)))" by simp
  then have "\<forall>x\<in>set (rev rest). f x \<le> f b"
    unfolding eq by (simp add: sorted_append)
  moreover have "set xs = insert b (set rest)"
    using arg_cong [OF eq, of set] by simp
  ultimately show ?thesis by auto
qed

lemma representatives_longest:
  "representatives cs = Inr new \<Longrightarrow>
   list_all2 (\<lambda>c b. b \<in> set c \<and> (\<forall>x\<in>set c. cds_len x \<le> cds_len b)) cs new"
proof (induction cs arbitrary: new)
  case Nil
  then show ?case by simp
next
  case (Cons c cs)
  from Cons.prems obtain best rest others where
    b: "sorted_desc cds_len c = best # rest" and r: "representatives cs = Inr others"
    and n: "new = best # others"
    by (auto split: list.splits dest!: and_then_Inr)
  from sorted_desc_first [OF b] Cons.IH [OF r] n show ?case by simp
qed

text \<open>
  C6.  The first of the representatives is kept whatever its length, and the list of
  representatives is in the order of the communities, not sorted: with the community of
  the shorter ORF first and both ORFs under the minimal secondary length, the longest
  ORF (9 bases of CDS against 3) is dropped and the shorter one is loaded.
\<close>

theorem longest_orf_dropped:
  "cds_len orf_short < cds_len orf_long \<and>
   map_sum id (retained_orfs 12) (representatives (singletons [orf_short, orf_long]))
     = Inr [orf_short] \<and>
   map_sum id loaded_bed12
     (load_orfs singletons singletons (mono\<lparr>json_dict := Some strict_conf\<rparr>) [orf_short, orf_long])
     = Inr [orf_short]"
  by (simp add: orf_eval fin_eval)

subsection \<open>Clique enumeration\<close>

lemma subseq_dropD: "subseq zs (drop n c) \<Longrightarrow> subseq zs c"
  using subseq_drop_many [of zs "drop n c" "take n c"] by simp

lemma subseq_Cons_nth:
  "subseq (u # zs) c \<longleftrightarrow> (\<exists>i<length c. c ! i = u \<and> subseq zs (drop (Suc i) c))"
proof (induction c)
  case Nil
  then show ?case by simp
next
  case (Cons x c)
  show ?case
  proof (cases "u = x")
    case True
    have "subseq zs c" if "i < length c" "subseq zs (drop (Suc i) c)" for i
      using that subseq_dropD by blast
    with True show ?thesis
      by (auto simp: less_Suc_eq_0_disj)
  next
    case False
    then show ?thesis
      using Cons.IH by (auto simp: less_Suc_eq_0_disj)
  qed
qed

lemma subseq_filter_iff:
  "subseq zs (filter P xs) \<longleftrightarrow> subseq zs xs \<and> (\<forall>z\<in>set zs. P z)"
proof
  assume l: "subseq zs (filter P xs)"
  then have "subseq zs xs"
    using subseq_filter_left [of P xs] subseq_order.trans by blast
  moreover have "\<forall>z\<in>set zs. P z"
  proof
    fix z assume "z \<in> set zs"
    with l obtain y where "y \<in> set (filter P xs)" "z = y" by (rule list_emb_set)
    then show "P z" by simp
  qed
  ultimately show "subseq zs xs \<and> (\<forall>z\<in>set zs. P z)" by simp
next
  assume r: "subseq zs xs \<and> (\<forall>z\<in>set zs. P z)"
  then have a: "subseq zs xs" and b: "filter P zs = zs" by simp_all
  from subseq_filter [OF a, of P] b show "subseq zs (filter P xs)" by simp
qed

lemma chains_Cons:
  "u # zs \<in> chains g c \<longleftrightarrow>
   (\<exists>i<length c. c ! i = u \<and>
      zs \<in> chains g (filter (\<lambda>v. v \<in> set (nbrs g (c ! i))) (drop (Suc i) c)))"
  by (auto simp: chains_def subseq_Cons_nth subseq_filter_iff)

lemma chains_Nil: "[] \<in> chains g c"
  by (simp add: chains_def)

lemma chains_unfold:
  "(@) base ` chains g c =
   insert base (\<Union>e\<in>set (extensions g base c). (@) (fst e) ` chains g (snd e))"
proof (intro set_eqI iffI)
  fix xs
  assume "xs \<in> (@) base ` chains g c"
  then obtain ys where ys: "xs = base @ ys" "ys \<in> chains g c" by auto
  show "xs \<in> insert base (\<Union>e\<in>set (extensions g base c). (@) (fst e) ` chains g (snd e))"
  proof (cases ys)
    case Nil
    with ys show ?thesis by simp
  next
    case (Cons u zs)
    with ys obtain i where i: "i < length c" "c ! i = u"
      "zs \<in> chains g (filter (\<lambda>v. v \<in> set (nbrs g (c ! i))) (drop (Suc i) c))"
      by (auto simp: chains_Cons)
    let ?e = "(base @ [c ! i], filter (\<lambda>v. v \<in> set (nbrs g (c ! i))) (drop (Suc i) c))"
    have "?e \<in> set (extensions g base c)"
      using i(1) by (auto simp: extensions_def)
    moreover have "xs \<in> (@) (fst ?e) ` chains g (snd ?e)"
      using ys Cons i by auto
    ultimately show ?thesis by blast
  qed
next
  fix xs
  assume "xs \<in> insert base (\<Union>e\<in>set (extensions g base c). (@) (fst e) ` chains g (snd e))"
  then consider "xs = base"
    | e where "e \<in> set (extensions g base c)" "xs \<in> (@) (fst e) ` chains g (snd e)"
    by auto
  then show "xs \<in> (@) base ` chains g c"
  proof cases
    case 1
    then show ?thesis using chains_Nil [of g c] by force
  next
    case 2
    then obtain i zs where i: "i < length c" "xs = (base @ [c ! i]) @ zs"
      "zs \<in> chains g (filter (\<lambda>v. v \<in> set (nbrs g (c ! i))) (drop (Suc i) c))"
      by (auto simp: extensions_def)
    then have "c ! i # zs \<in> chains g c"
      by (auto simp: chains_Cons)
    with i(2) show ?thesis by force
  qed
qed

lemma zhang_loop_set:
  "set (zhang_loop g queue) = (\<Union>e\<in>set queue. (@) (fst e) ` chains g (snd e))"
proof (induction g queue rule: zhang_loop.induct)
  case (1 g)
  then show ?case by simp
next
  case (2 g base cnbrs queue)
  have "set (zhang_loop g ((base, cnbrs) # queue)) =
        insert base (\<Union>e\<in>set (queue @ extensions g base cnbrs). (@) (fst e) ` chains g (snd e))"
    using 2 by simp
  also have "\<dots> = (\<Union>e\<in>set queue. (@) (fst e) ` chains g (snd e)) \<union>
      insert base (\<Union>e\<in>set (extensions g base cnbrs). (@) (fst e) ` chains g (snd e))"
    by auto
  also have "\<dots> = (\<Union>e\<in>set queue. (@) (fst e) ` chains g (snd e)) \<union> (@) base ` chains g cnbrs"
    by (simp only: chains_unfold [of base g cnbrs, symmetric])
  also have "\<dots> = (\<Union>e\<in>set ((base, cnbrs) # queue). (@) (fst e) ` chains g (snd e))"
    by auto
  finally show ?case .
qed

lemma enumerate_all_cliques_set:
  "set (enumerate_all_cliques g) = {u # ys | u ys. u \<in> set (g_nodes g) \<and> ys \<in> chains g (nbrs g u)}"
  by (auto simp: enumerate_all_cliques_def zhang_loop_set)

lemma adjacent_sym: "adjacent g u v = adjacent g v u"
  by (auto simp: adjacent_def)

lemma nbrs_member:
  "v \<in> set (nbrs g u) \<Longrightarrow> adjacent g u v \<and> v \<in> set (g_nodes g) \<and> v \<noteq> u"
  by (auto simp: nbrs_def neighbours_def)

lemma chain_is_clique:
  assumes "u \<in> set (g_nodes g)" "ys \<in> chains g (nbrs g u)"
  shows "is_clique g (set (u # ys))"
proof -
  from assms(2) have sub: "subseq ys (nbrs g u)"
    and srt: "sorted_wrt (\<lambda>a b. b \<in> set (nbrs g a)) ys"
    by (simp_all add: chains_def)
  have in_nbrs: "y \<in> set (nbrs g u)" if "y \<in> set ys" for y
  proof -
    from sub that obtain z where "z \<in> set (nbrs g u)" "y = z" by (rule list_emb_set)
    then show ?thesis by simp
  qed
  have first: "adjacent g u y \<and> y \<in> set (g_nodes g) \<and> y \<noteq> u" if "y \<in> set ys" for y
    using nbrs_member [OF in_nbrs [OF that]] .
  have pair: "adjacent g a b" if "a \<in> set ys" "b \<in> set ys" "a \<noteq> b" for a b
  proof -
    from that(1) obtain i where i: "i < length ys" "ys ! i = a"
      by (auto simp: in_set_conv_nth)
    from that(2) obtain j where j: "j < length ys" "ys ! j = b"
      by (auto simp: in_set_conv_nth)
    from that(3) i j have "i \<noteq> j" by auto
    then consider "i < j" | "j < i" by linarith
    then show ?thesis
    proof cases
      case 1
      with srt i j have "b \<in> set (nbrs g a)"
        unfolding sorted_wrt_iff_nth_less by blast
      then show ?thesis by (simp add: nbrs_member)
    next
      case 2
      with srt i j have "a \<in> set (nbrs g b)"
        unfolding sorted_wrt_iff_nth_less by blast
      then have "adjacent g b a" by (simp add: nbrs_member)
      then show ?thesis by (simp add: adjacent_sym)
    qed
  qed
  have all: "adjacent g a b" if "a \<in> set (u # ys)" "b \<in> set (u # ys)" "a \<noteq> b" for a b
  proof (cases "a = u")
    case True
    with that have "b \<in> set ys" by auto
    with True first show ?thesis by simp
  next
    case False
    with that(1) have a: "a \<in> set ys" by simp
    show ?thesis
    proof (cases "b = u")
      case True
      with a first have "adjacent g b a" by simp
      then show ?thesis by (simp add: adjacent_sym)
    next
      case False
      with that(2) have "b \<in> set ys" by simp
      with a that(3) show ?thesis using pair by blast
    qed
  qed
  have nodes: "x \<in> set (g_nodes g)" if "x \<in> set (u # ys)" for x
  proof (cases "x = u")
    case True
    with assms(1) show ?thesis by simp
  next
    case False
    with that have "x \<in> set ys" by simp
    with first show ?thesis by simp
  qed
  show ?thesis
    unfolding is_clique_def
  proof (intro conjI ballI impI subsetI)
    show "set (u # ys) \<noteq> {}" by simp
  next
    fix x assume "x \<in> set (u # ys)" then show "x \<in> set (g_nodes g)" by (rule nodes)
  next
    fix a b assume "a \<in> set (u # ys)" "b \<in> set (u # ys)" "a \<noteq> b"
    then show "adjacent g a b" by (rule all)
  qed
qed

lemma nbrs_split:
  assumes "g_nodes g = pre @ u # post" "distinct (g_nodes g)"
  shows "nbrs g u = filter (adjacent g u) post"
proof -
  from assms have u: "u \<notin> set pre" "u \<notin> set post" "set pre \<inter> set post = {}"
    by auto
  have "\<forall>x\<in>set pre. x \<noteq> u" using u(1) by auto
  then have tw: "takeWhile (\<lambda>w. w \<noteq> u) (pre @ u # post) = pre"
    by simp
  let ?Q = "\<lambda>x. adjacent g u x \<and> x \<notin> set (pre @ [u])"
  have 1: "filter ?Q pre = []"
    by (auto simp: filter_empty_conv)
  have 2: "filter ?Q post = filter (adjacent g u) post"
    using u by (intro filter_cong) auto
  have 3: "filter ?Q (pre @ u # post) = filter ?Q pre @ filter ?Q post"
    by simp
  have "nbrs g u = filter ?Q (pre @ u # post)"
    unfolding nbrs_def neighbours_def assms(1) tw filter_filter ..
  then show ?thesis
    unfolding 3 1 2 by simp
qed

lemma later_adjacent_in_nbrs:
  assumes "distinct (g_nodes g)"
  shows "sorted_wrt (\<lambda>a b. a \<noteq> b \<and> (adjacent g a b \<longrightarrow> b \<in> set (nbrs g a))) (g_nodes g)"
  unfolding sorted_wrt_iff_nth_less
proof (intro allI impI)
  fix i j assume ij: "i < j" "j < length (g_nodes g)"
  let ?xs = "g_nodes g"
  have split: "?xs = take i ?xs @ ?xs ! i # drop (Suc i) ?xs"
    using ij by (simp add: id_take_nth_drop)
  have "?xs ! j \<in> set (drop (Suc i) ?xs)"
    using ij by (auto simp: in_set_conv_nth intro!: exI [of _ "j - Suc i"])
  then have "adjacent g (?xs ! i) (?xs ! j) \<longrightarrow> ?xs ! j \<in> set (nbrs g (?xs ! i))"
    using nbrs_split [OF split assms] by simp
  moreover have "?xs ! i \<noteq> ?xs ! j"
    using ij assms by (simp add: nth_eq_iff_index_eq)
  ultimately show "?xs ! i \<noteq> ?xs ! j \<and>
      (adjacent g (?xs ! i) (?xs ! j) \<longrightarrow> ?xs ! j \<in> set (nbrs g (?xs ! i)))"
    by simp
qed

lemma clique_is_enumerated:
  assumes "distinct (g_nodes g)" "is_clique g c"
  shows "c \<in> set ` set (enumerate_all_cliques g)"
proof -
  let ?P = "\<lambda>v. v \<in> c"
  from assms(2) have c: "c \<noteq> {}" "c \<subseteq> set (g_nodes g)"
    and adj: "\<And>a b. a \<in> c \<Longrightarrow> b \<in> c \<Longrightarrow> a \<noteq> b \<Longrightarrow> adjacent g a b"
    by (auto simp: is_clique_def)
  from c have "filter ?P (g_nodes g) \<noteq> []"
    by (auto simp: filter_empty_conv)
  then obtain u ys where f: "filter ?P (g_nodes g) = u # ys"
    by (cases "filter ?P (g_nodes g)") auto
  then obtain pre post where split: "g_nodes g = pre @ u # post"
    and pre: "\<forall>p\<in>set pre. p \<notin> c" and u: "u \<in> c" and ys: "ys = filter ?P post"
    by (auto simp: filter_eq_Cons_iff)
  have nb: "nbrs g u = filter (adjacent g u) post"
    by (rule nbrs_split [OF split assms(1)])
  have "u \<notin> set post" using assms(1) split by auto
  then have "\<forall>v\<in>set post. v \<in> c \<longrightarrow> adjacent g u v"
    using adj u by auto
  then have e: "ys = filter ?P (filter (adjacent g u) post)"
    unfolding ys filter_filter by (intro filter_cong) auto
  have sub: "subseq ys (nbrs g u)"
    unfolding nb by (subst e) (rule subseq_filter_left)
  have "sorted_wrt (\<lambda>a b. a \<noteq> b \<and> (adjacent g a b \<longrightarrow> b \<in> set (nbrs g a))) post"
    using later_adjacent_in_nbrs [OF assms(1)] by (simp add: split sorted_wrt_append)
  then have "sorted_wrt (\<lambda>a b. a \<noteq> b \<and> (adjacent g a b \<longrightarrow> b \<in> set (nbrs g a))) ys"
    unfolding ys by (rule sorted_wrt_filter)
  then have srt: "sorted_wrt (\<lambda>a b. b \<in> set (nbrs g a)) ys"
    by (rule sorted_wrt_mono_rel [rotated]) (use adj ys in auto)
  have "u # ys \<in> set (enumerate_all_cliques g)"
    using sub srt split by (auto simp: enumerate_all_cliques_set chains_def)
  moreover have "set (u # ys) = c"
    using f [symmetric] c by auto
  ultimately show ?thesis by (metis imageI)
qed

text \<open>
  On a graph (its nodes distinct) \<open>enumerate_all_cliques\<close> returns exactly the non-empty
  cliques of the graph, of every size: the maximal cliques are among its results,
  together with every clique that is not maximal.
\<close>

lemma enumerate_all_cliques_exact:
  "distinct (g_nodes g) \<Longrightarrow>
   set ` set (enumerate_all_cliques g) = {c. is_clique g c} \<and>
   {c. maximal_clique g c} \<subseteq> set ` set (enumerate_all_cliques g)"
proof -
  assume d: "distinct (g_nodes g)"
  have "set ` set (enumerate_all_cliques g) = {c. is_clique g c}"
  proof (intro set_eqI iffI)
    fix c assume "c \<in> set ` set (enumerate_all_cliques g)"
    then show "c \<in> {c. is_clique g c}"
      by (auto simp: enumerate_all_cliques_set chain_is_clique simp del: set_simps)
  next
    fix c assume "c \<in> {c. is_clique g c}"
    then show "c \<in> set ` set (enumerate_all_cliques g)"
      using clique_is_enumerated [OF d] by simp
  qed
  then show ?thesis by (auto simp: maximal_clique_def)
qed

text \<open>
  On two nodes joined by an edge the algorithm returns the cliques \<open>{1}\<close>, \<open>{2}\<close> and
  \<open>{1, 2}\<close>, and \<open>{1}\<close> is not a maximal clique.
\<close>

lemma zhang_returns_non_maximal:
  "enumerate_all_cliques edge_graph = [[1], [2], [1, 2]] \<and> \<not> maximal_clique edge_graph (set [1])"
  by (simp add: enumerate_all_cliques_def edge_graph_def nbrs_def neighbours_def adjacent_def
      extensions_def maximal_clique_def)

subsection \<open>Clique percolation\<close>

lemma map_fst_update:
  "map fst (map (\<lambda>kv. if fst kv = k then (k, v) else kv) d) = map fst d"
  by (induction d) auto

lemma keys_dict_set: "fst ` set (dict_set d k v) = insert k (fst ` set d)"
proof (cases "k \<in> fst ` set d")
  case True
  then have "map fst (dict_set d k v) = map fst d"
    by (simp add: dict_set_def map_fst_update)
  then have "set (map fst (dict_set d k v)) = set (map fst d)" by simp
  then have "fst ` set (dict_set d k v) = fst ` set d" by (simp only: set_map)
  moreover have "insert k (fst ` set d) = fst ` set d" using True by (rule insert_absorb)
  ultimately show ?thesis by simp
next
  case False
  then show ?thesis by (simp add: dict_set_def)
qed

lemma grow_keys_known: "c \<in> K \<Longrightarrow> A \<union> K \<subseteq> K' \<Longrightarrow> insert c A \<union> K \<subseteq> K'"
  by blast

lemma grow_keys_new: "insert c K \<subseteq> K1 \<Longrightarrow> A \<union> K1 \<subseteq> K' \<Longrightarrow> insert c A \<union> K \<subseteq> K'"
  by blast

lemma visit_neighbours_ok:
  "distinct nbs \<Longrightarrow> set nbs \<subseteq> set live \<Longrightarrow> distinct live \<Longrightarrow>
   \<exists>comps' frontier' live'.
     visit_neighbours k n cur nbs (comps, frontier, live) = Inr (comps', frontier', live') \<and>
     distinct live' \<and> fst ` set comps \<subseteq> fst ` set comps'"
proof (induction nbs arbitrary: comps frontier live)
  case Nil
  then show ?case by simp
next
  case (Cons nb rest)
  show ?case
  proof (cases "int (card (cur \<inter> nb)) \<ge> k - 1")
    case True
    have nb: "nb \<in> set live" "nb \<notin> set rest" using Cons.prems by auto
    have "distinct rest" "set rest \<subseteq> set (removeAll nb live)" "distinct (removeAll nb live)"
      using Cons.prems nb by (auto simp: distinct_removeAll)
    from Cons.IH [OF this, of "dict_set comps nb n" "List.insert nb frontier"]
    obtain comps' frontier' live' where
      r: "visit_neighbours k n cur rest
            (dict_set comps nb n, List.insert nb frontier, removeAll nb live)
          = Inr (comps', frontier', live')"
      and d: "distinct live'" and ks: "fst ` set (dict_set comps nb n) \<subseteq> fst ` set comps'"
      by blast
    from ks have "fst ` set comps \<subseteq> fst ` set comps'"
      unfolding keys_dict_set by blast
    with True nb r d show ?thesis by simp
  next
    case False
    have "distinct rest" "set rest \<subseteq> set live" using Cons.prems by auto
    from Cons.IH [OF this Cons.prems(3), of comps frontier] False show ?thesis by simp
  qed
qed

lemma explore_ok:
  "distinct (snd (snd st)) \<Longrightarrow>
   \<exists>comps' live'. explore k n st = Inr (comps', live') \<and> distinct live' \<and>
                  fst ` set (fst st) \<subseteq> fst ` set comps'"
proof (induction k n st rule: explore.induct)
  case (1 k n comps live)
  then show ?case by simp
next
  case (2 k n comps cur frontier live)
  have d: "distinct live" using "2.prems" by simp
  have "distinct (unvisited_neighbours cur live)" "set (unvisited_neighbours cur live) \<subseteq> set live"
    using d by (auto simp: unvisited_neighbours_def)
  from visit_neighbours_ok [OF this d, of k n cur comps frontier]
  obtain comps1 frontier1 live1 where
    v: "visit_neighbours k n cur (unvisited_neighbours cur live) (comps, frontier, live)
        = Inr (comps1, frontier1, live1)"
    and d1: "distinct live1" and k1: "fst ` set comps \<subseteq> fst ` set comps1"
    by blast
  from "2.IH" [OF v] d1 obtain comps' live' where
    e: "explore k n (comps1, frontier1, live1) = Inr (comps', live')"
    and d': "distinct live'" and k': "fst ` set comps1 \<subseteq> fst ` set comps'"
    by auto
  from v e have "explore k n (comps, cur # frontier, live) = Inr (comps', live')" by simp
  with d' k1 k' show ?case by auto
qed

lemma rdh_loop_ok:
  "distinct live \<Longrightarrow>
   \<exists>comps' live' n'. rdh_loop k cs (comps, live, n) = Inr (comps', live', n') \<and>
                     set cs \<union> fst ` set comps \<subseteq> fst ` set comps'"
proof (induction cs arbitrary: comps live n)
  case Nil
  then show ?case by simp
next
  case (Cons c cs)
  show ?case
  proof (cases "c \<in> fst ` set comps")
    case True
    from Cons.IH [OF Cons.prems, of comps n] obtain comps' live' n' where
      r: "rdh_loop k cs (comps, live, n) = Inr (comps', live', n')"
      and k': "set cs \<union> fst ` set comps \<subseteq> fst ` set comps'"
      by blast
    from True r have "rdh_loop k (c # cs) (comps, live, n) = Inr (comps', live', n')" by simp
    moreover have "set (c # cs) \<union> fst ` set comps \<subseteq> fst ` set comps'"
      unfolding list.set by (rule grow_keys_known [OF True k'])
    ultimately show ?thesis by blast
  next
    case False
    from explore_ok [of "(dict_set comps c (n + 1), [c], live)" k "n + 1"] Cons.prems
    obtain comps1 live1 where
      e: "explore k (n + 1) (dict_set comps c (n + 1), [c], live) = Inr (comps1, live1)"
      and d1: "distinct live1" and k1: "fst ` set (dict_set comps c (n + 1)) \<subseteq> fst ` set comps1"
      by auto
    from Cons.IH [OF d1, of comps1 "n + 1"] obtain comps' live' n' where
      r: "rdh_loop k cs (comps1, live1, n + 1) = Inr (comps', live', n')"
      and k': "set cs \<union> fst ` set comps1 \<subseteq> fst ` set comps'"
      by blast
    from False e r have "rdh_loop k (c # cs) (comps, live, n) = Inr (comps', live', n')" by simp
    moreover have "set (c # cs) \<union> fst ` set comps \<subseteq> fst ` set comps'"
      unfolding list.set by (rule grow_keys_new [OF k1 [unfolded keys_dict_set] k'])
    ultimately show ?thesis by blast
  qed
qed

lemma covered_map:
  assumes "covered cs x"
  shows "covered (map (\<lambda>kv. if fst kv = i then (fst kv, snd kv \<union> c) else kv) cs) x"
proof -
  from assms obtain kv where kv: "kv \<in> set cs" "x \<subseteq> snd kv" by (auto simp: covered_def)
  let ?f = "\<lambda>kv. if fst kv = i then (fst kv, snd kv \<union> c) else kv"
  have "?f kv \<in> set (map ?f cs)" unfolding set_map using kv(1) by (rule imageI)
  moreover have "x \<subseteq> snd (?f kv)" using kv(2) by auto
  ultimately show ?thesis unfolding covered_def by blast
qed

lemma covered_append: "covered cs x \<Longrightarrow> covered (cs @ ds) x"
  unfolding covered_def by (metis UnCI set_append)

lemma covered_dict_set: "k \<notin> fst ` set cs \<Longrightarrow> covered cs x \<Longrightarrow> covered (dict_set cs k v) x"
  unfolding dict_set_def by (simp only: if_False covered_append)

lemma add_to_community_keeps:
  assumes "covered cs x"
  shows "covered (add_to_community cs e) x"
proof -
  let ?cs = "if snd e \<notin> fst ` set cs then dict_set cs (snd e) {} else cs"
  have "covered ?cs x"
  proof (cases "snd e \<notin> fst ` set cs")
    case True
    then have "covered (dict_set cs (snd e) {}) x" using assms by (rule covered_dict_set)
    with True show ?thesis by simp
  next
    case False
    with assms show ?thesis by simp
  qed
  then have "covered (map (\<lambda>kv. if fst kv = snd e then (fst kv, snd kv \<union> fst e) else kv) ?cs) x"
    by (rule covered_map)
  then show ?thesis
    unfolding add_to_community_def Let_def .
qed

lemma add_to_community_covers: "covered (add_to_community cs (c, i)) c"
proof -
  let ?cs = "if i \<notin> fst ` set cs then dict_set cs i {} else cs"
  have "i \<in> fst ` set ?cs"
  proof (cases "i \<notin> fst ` set cs")
    case True
    have "i \<in> fst ` set (dict_set cs i {})" unfolding keys_dict_set by (rule insertI1)
    with True show ?thesis by simp
  next
    case False
    then show ?thesis by simp
  qed
  then obtain kv where kv: "kv \<in> set ?cs" "fst kv = i" by (metis imageE)
  let ?f = "\<lambda>kv. if fst kv = i then (fst kv, snd kv \<union> c) else kv"
  have "?f kv \<in> set (map ?f ?cs)" unfolding set_map using kv(1) by (rule imageI)
  moreover have "c \<subseteq> snd (?f kv)" using kv(2) by simp
  ultimately have "covered (map ?f ?cs) c" unfolding covered_def by (rule bexI [rotated])
  then show ?thesis
    unfolding add_to_community_def Let_def fst_conv snd_conv .
qed

lemma foldl_add_to_community_covers:
  "covered acc x \<or> x \<in> fst ` set comps \<Longrightarrow> covered (foldl add_to_community acc comps) x"
proof (induction comps arbitrary: acc)
  case Nil
  then show ?case by simp
next
  case (Cons e comps)
  show ?case
  proof (cases "covered acc x \<or> x = fst e")
    case True
    then have "covered (add_to_community acc e) x"
    proof
      assume "covered acc x" then show ?thesis by (rule add_to_community_keeps)
    next
      assume "x = fst e"
      then show ?thesis using add_to_community_covers [of acc "fst e" "snd e"] by simp
    qed
    then have "covered (foldl add_to_community (add_to_community acc e) comps) x"
      using Cons.IH by blast
    then show ?thesis by simp
  next
    case False
    with Cons.prems have "x \<in> fst ` set comps" by auto
    then have "covered (foldl add_to_community (add_to_community acc e) comps) x"
      using Cons.IH by blast
    then show ?thesis by simp
  qed
qed

lemma communities_of_covers:
  assumes "c \<in> fst ` set comps"
  shows "\<exists>s\<in>set (communities_of comps). c \<subseteq> s"
proof -
  have "covered (foldl add_to_community [] comps) c"
    using assms by (intro foldl_add_to_community_covers) simp
  then obtain kv where kv: "kv \<in> set (foldl add_to_community [] comps)" "c \<subseteq> snd kv"
    unfolding covered_def by blast
  from kv(1) have "snd kv \<in> set (communities_of comps)"
    unfolding communities_of_def set_map by (rule imageI)
  with kv(2) show ?thesis by blast
qed

lemma reid_daid_hurley_covers:
  assumes "c \<in> set cliques" "2 \<le> card c"
  shows "\<exists>comms. reid_daid_hurley 2 cliques = Inr comms \<and> (\<exists>s\<in>set comms. c \<subseteq> s)"
proof -
  define cs where "cs = filter (\<lambda>c. int (card c) \<ge> 2) cliques"
  have c: "c \<in> set cs" using assms by (simp add: cs_def)
  have d: "distinct (remdups cs)" by simp
  from rdh_loop_ok [OF d, of 2 cs "[]" 0] obtain comps' live' n' where
    r: "rdh_loop 2 cs ([], remdups cs, 0) = Inr (comps', live', n')"
    and k: "set cs \<union> fst ` set ([] :: 'a components) \<subseteq> fst ` set comps'"
    by blast
  have "c \<in> set cs \<union> fst ` set ([] :: 'a components)" using c by (rule UnI1)
  with k have "c \<in> fst ` set comps'" by (rule subsetD)
  from communities_of_covers [OF this] obtain s where
    s: "s \<in> set (communities_of comps')" "c \<subseteq> s" ..
  have "reid_daid_hurley 2 cliques =
        and_then (rdh_loop 2 cs ([], remdups cs, 0)) (\<lambda>st. Inr (communities_of (fst st)))"
    unfolding reid_daid_hurley_def cs_def Let_def by (simp only: less_irrefl if_False)
  also have "\<dots> = Inr (communities_of comps')"
    unfolding r and_then_def by simp
  finally show ?thesis using s by (intro exI conjI bexI)
qed

lemma fallback_cliques:
  assumes "distinct (g_nodes g)" "200 < length (g_nodes g)"
    and "u \<in> set (g_nodes g)" "v \<in> set (g_nodes g)" "u \<noteq> v" "adjacent g u v"
  shows "\<exists>comms. find_communities frc g = Inr (map set (enumerate_all_cliques g), comms)"
    and "{u} \<in> set (map set (enumerate_all_cliques g))"
    and "{u, v} \<in> set (map set (enumerate_all_cliques g))"
    and "\<not> maximal_clique g {u}"
proof -
  define cliques where "cliques = map set (enumerate_all_cliques g)"
  have all: "set cliques = {c. is_clique g c}"
    using enumerate_all_cliques_exact [OF assms(1)] by (simp add: cliques_def)
  have "is_clique g {u}" using assms(3) by (simp add: is_clique_def)
  then show "{u} \<in> set (map set (enumerate_all_cliques g))"
    using all by (simp add: cliques_def)
  have "is_clique g {u, v}"
    using assms(3-6) by (auto simp: is_clique_def adjacent_sym)
  then have two: "{u, v} \<in> set cliques" using all by simp
  then show "{u, v} \<in> set (map set (enumerate_all_cliques g))"
    by (simp add: cliques_def)
  have "2 \<le> card {u, v}" using assms(5) by simp
  from reid_daid_hurley_covers [OF two this] obtain comms where
    r: "reid_daid_hurley 2 cliques = Inr comms"
    by blast
  have "find_communities frc g
          = Inr (cliques, set (filter (\<lambda>x. card x = 1) cliques) \<union> set comms)"
    using assms(2) r by (simp add: find_communities_def cliques_def and_then_def)
  then show "\<exists>comms. find_communities frc g = Inr (map set (enumerate_all_cliques g), comms)"
    by (simp add: cliques_def)
  have "v \<notin> {u}" "\<forall>w\<in>{u}. adjacent g w v"
    using assms(5,6) by simp_all
  with assms(4) show "\<not> maximal_clique g {u}"
    unfolding maximal_clique_def by blast
qed

lemma zhang_singletons_duplicate:
  assumes "distinct (g_nodes g)" "200 < length (g_nodes g)"
    and "u \<in> set (g_nodes g)" "v \<in> set (g_nodes g)" "u \<noteq> v" "adjacent g u v"
  shows "\<exists>cliques comms. find_communities frc g = Inr (cliques, comms) \<and>
           {u} \<in> comms \<and> (\<exists>s\<in>comms. u \<in> s \<and> s \<noteq> {u})"
proof -
  define cliques where "cliques = map set (enumerate_all_cliques g)"
  have all: "set cliques = {c. is_clique g c}"
    using enumerate_all_cliques_exact [OF assms(1)] by (simp add: cliques_def)
  have "is_clique g {u}" using assms(3) by (simp add: is_clique_def)
  then have one: "{u} \<in> set (filter (\<lambda>x. card x = 1) cliques)" using all by simp
  have "is_clique g {u, v}"
    using assms(3-6) by (auto simp: is_clique_def adjacent_sym)
  then have two: "{u, v} \<in> set cliques" using all by simp
  have "2 \<le> card {u, v}" using assms(5) by simp
  from reid_daid_hurley_covers [OF two this] obtain comms s where
    r: "reid_daid_hurley 2 cliques = Inr comms" and s: "s \<in> set comms" "{u, v} \<subseteq> s"
    by blast
  let ?comms = "set (filter (\<lambda>x. card x = 1) cliques) \<union> set comms"
  have "find_communities frc g = Inr (cliques, ?comms)"
    using assms(2) r by (simp add: find_communities_def cliques_def and_then_def)
  moreover have "{u} \<in> ?comms" using one by (rule UnI1)
  moreover have "s \<in> ?comms" using s(1) by (rule UnI2)
  moreover have "u \<in> s \<and> s \<noteq> {u}" using s(2) assms(5) by auto
  ultimately show ?thesis by blast
qed

text \<open>
  C2.  The exact algorithm and the fallback return the same cliques, the maximal ones.
  The fallback does not: on a graph of 201 nodes with one edge, between nodes 0 and 1,
  \<open>find_communities\<close> takes its cliques from \<open>enumerate_all_cliques\<close>, and both \<open>{0}\<close>
  and \<open>{0, 1}\<close> are among them.  A clique that lies within a larger one is not maximal.
\<close>

theorem fallback_returns_non_maximal_clique:
  "200 < length (g_nodes large_graph) \<and>
   (\<exists>comms. find_communities find_cliques_recursive large_graph
              = Inr (map set (enumerate_all_cliques large_graph), comms)) \<and>
   {0} \<in> set (map set (enumerate_all_cliques large_graph)) \<and>
   {0, 1} \<in> set (map set (enumerate_all_cliques large_graph))"
proof -
  have p: "distinct (g_nodes large_graph)" "200 < length (g_nodes large_graph)"
    "0 \<in> set (g_nodes large_graph)" "1 \<in> set (g_nodes large_graph)" "(0::nat) \<noteq> 1"
    "adjacent large_graph 0 1"
    by (simp_all add: large_graph_def adjacent_def)
  note f = fallback_cliques [OF p]
  have c: "\<exists>comms. find_communities find_cliques_recursive large_graph
                     = Inr (map set (enumerate_all_cliques large_graph), comms)"
    by (rule f(1))
  show ?thesis by (rule conjI [OF p(2) conjI [OF c conjI [OF f(2) f(3)]]])
qed

text \<open>In terms of \<open>maximal_clique\<close>: the clique \<open>{0}\<close> of that graph is not maximal.\<close>

lemma large_graph_singleton_not_maximal: "\<not> maximal_clique large_graph {0}"
proof -
  have p: "distinct (g_nodes large_graph)" "200 < length (g_nodes large_graph)"
    "0 \<in> set (g_nodes large_graph)" "1 \<in> set (g_nodes large_graph)" "(0::nat) \<noteq> 1"
    "adjacent large_graph 0 1"
    by (simp_all add: large_graph_def adjacent_def)
  show ?thesis by (rule fallback_cliques(4) [OF p])
qed

text \<open>
  C3.  On a graph of 201 nodes with one edge, between nodes 0 and 1, the communities
  that \<open>find_communities\<close> returns do not partition the nodes: node 0 is a community
  of its own, as every node is a clique of one node for \<open>enumerate_all_cliques\<close>, and it
  also belongs to a community of the percolation.
\<close>

theorem large_graph_node_in_two_communities:
  "\<exists>cliques comms. find_communities find_cliques_recursive large_graph = Inr (cliques, comms) \<and>
     {0} \<in> comms \<and> (\<exists>s\<in>comms. 0 \<in> s \<and> s \<noteq> {0})"
proof -
  have "distinct (g_nodes large_graph)" "200 < length (g_nodes large_graph)"
    "0 \<in> set (g_nodes large_graph)" "1 \<in> set (g_nodes large_graph)" "(0::nat) \<noteq> 1"
    "adjacent large_graph 0 1"
    by (simp_all add: large_graph_def adjacent_def)
  then show ?thesis by (rule zhang_singletons_duplicate)
qed

end
